theory Spec2Isabelle
  imports Main "HOL-Library.Word" "HOL-Library.Multiset"
begin

unbundle bit_operations_syntax

text \<open>
  The iterative Towers of Hanoi solver of \<^verbatim>\<open>HanoiTowers.cpp\<close>: its pegs, the move primitive,
  the two forward sweeps, the driver loop and the reading of the disk count from the
  command line, followed by the proof that the driver solves the puzzle for every number
  of disks and by the properties of single moves and of whole runs.
\<close>

section \<open>Data model\<close>

text \<open>
  \<^verbatim>\<open>using Tower = std::list<int>\<close>: the front of the list is the top of the peg.
  Disk sizes are only compared and tested with \<^verbatim>\<open>& 1\<close>, never computed with, so they are
  modelled as \<^typ>\<open>int\<close>. \<^verbatim>\<open>using HanoiTower = std::array<Tower, 3>\<close> is a triple, read
  and written by index through \<open>peg\<close> and \<open>set_peg\<close>; the source indexes it with the
  constants 0, 1 and 2 only.
\<close>

type_synonym Tower = "int list"

type_synonym HanoiTower = "Tower \<times> Tower \<times> Tower"

fun peg :: "HanoiTower \<Rightarrow> nat \<Rightarrow> Tower" where
  "peg (a, b, c) i = (if i = 0 then a else if i = 1 then b else c)"

fun set_peg :: "HanoiTower \<Rightarrow> nat \<Rightarrow> Tower \<Rightarrow> HanoiTower" where
  "set_peg (a, b, c) i t = (if i = 0 then (t, b, c) else if i = 1 then (a, t, c) else (a, b, t))"

text \<open>\<^verbatim>\<open>InitTower\<close>: the loop \<^verbatim>\<open>for (int i = 1; i <= disks_count; i++) init.push_back(i)\<close>.\<close>

function InitTower_loop :: "int \<Rightarrow> int \<Rightarrow> Tower \<Rightarrow> Tower" where
  "InitTower_loop i disks_count init =
     (if i \<le> disks_count then InitTower_loop (i + 1) disks_count (init @ [i]) else init)"
  by pat_completeness auto
termination
  by (relation "measure (\<lambda>(i, n, init). nat (n + 1 - i))") auto

declare InitTower_loop.simps [simp del]

definition InitTower :: "int \<Rightarrow> Tower" where
  "InitTower disks_count = InitTower_loop 1 disks_count []"

section \<open>The move primitive\<close>

text \<open>
  \<^verbatim>\<open>bool Move(Tower& from, Tower& to)\<close>. The two references are returned next to the
  result; the splice moves the front element of \<open>from\<close> to the front of \<open>to\<close>.
\<close>

definition Move :: "Tower \<Rightarrow> Tower \<Rightarrow> bool \<times> Tower \<times> Tower" where
  "Move frm to =
     (if frm = [] then (False, frm, to)
      else if to \<noteq> [] \<and> (hd frm AND 1) \<noteq> 0 \<and> (hd to AND 1) \<noteq> 0 then (False, frm, to)
      else if to \<noteq> [] \<and> \<not> (hd frm AND 1) \<noteq> 0 \<and> \<not> (hd to AND 1) \<noteq> 0 then (False, frm, to)
      else if to = [] \<or> hd frm < hd to then (True, tl frm, hd frm # to)
      else (False, frm, to))"

section \<open>The driver\<close>

text \<open>
  The driver's variables: the board, \<^verbatim>\<open>int previous\<close> and \<^verbatim>\<open>int moves\<close>. \<open>previous\<close> only
  ever holds 0, 1 or 2. The counter is incremented once per move and can overflow. C++
  leaves the overflow of a signed \<^verbatim>\<open>int\<close> undefined; the model takes the wrap-around of a
  two's complement machine: the counter is a 32-bit word and \<open>sint\<close> reads it as the
  \<^verbatim>\<open>int\<close> that is printed.

  \<open>log\<close> is a history variable, not a variable of the program: every move that is
  performed appends its source and destination index, the value of \<open>previous\<close> before
  and after it, and the board after it. It is never read by the driver; it is what
  statements about ``every move of a run'' quantify over.
\<close>

record event =
  src :: nat
  dst :: nat
  last_before :: int
  last_after :: int
  board :: HanoiTower

record state =
  tower :: HanoiTower
  previous :: int
  moves :: "32 word"
  log :: "event list"

text \<open>
  One guarded candidate,
  \<^verbatim>\<open>if (previous != i && Move(tower[i], tower[j])) { moves++; previous = j; continue; }\<close>:
  the flag says whether the branch was taken, the state is the one after the test.
\<close>

definition candidate :: "nat \<Rightarrow> nat \<Rightarrow> state \<Rightarrow> bool \<times> state" where
  "candidate i j s =
     (if previous s \<noteq> int i then
        (case Move (peg (tower s) i) (peg (tower s) j) of
           (ok, f, t) \<Rightarrow>
             (let s' = s\<lparr>tower := set_peg (set_peg (tower s) i f) j t\<rparr>
              in if ok then
                   (let s'' = s'\<lparr>moves := moves s' + 1, previous := int j\<rparr>
                    in (True, s''\<lparr>log := log s'' @
                          [\<lparr>src = i, dst = j, last_before = previous s,
                            last_after = previous s'', board = tower s''\<rparr>]\<rparr>))
                 else (False, s')))
      else (False, s))"

subsection \<open>What a candidate does\<close>

lemma low_bit_odd: "(x AND 1 \<noteq> 0) = odd (x::int)"
  by (simp add: and_one_eq odd_iff_mod_2_eq_one)

lemma Move_eq:
  "Move f t =
     (if f \<noteq> [] \<and> (t = [] \<or> (odd (hd f) \<noteq> odd (hd t) \<and> hd f < hd t))
      then (True, tl f, hd f # t) else (False, f, t))"
  unfolding Move_def low_bit_odd
  by (cases "f = []"; cases "t = []"; cases "odd (hd f)"; cases "odd (hd t)"; simp)

lemma Move_fail_same: "\<not> fst (Move f t) \<Longrightarrow> snd (Move f t) = (f, t)"
  by (simp add: Move_eq split: if_splits)

lemma Move_ok: "fst (Move f t) \<Longrightarrow> snd (Move f t) = (tl f, hd f # t) \<and> f \<noteq> []"
  by (simp add: Move_eq split: if_splits)

lemma peg_set_peg:
  "peg (set_peg T i x) j = (if i = j \<or> (2 \<le> i \<and> 2 \<le> j) then x else peg T j)"
  by (cases T) auto

lemma set_peg_same: "set_peg (set_peg T i (peg T i)) j (peg T j) = T"
  by (cases T) auto

lemma candidate_fail_same: "\<not> fst (candidate i j s) \<Longrightarrow> snd (candidate i j s) = s"
proof (cases "previous s = int i")
  case True
  then show ?thesis by (simp add: candidate_def)
next
  case False
  assume nf: "\<not> fst (candidate i j s)"
  obtain ok f t where m: "Move (peg (tower s) i) (peg (tower s) j) = (ok, f, t)"
    by (cases "Move (peg (tower s) i) (peg (tower s) j)") auto
  from nf False m have "\<not> ok" by (simp add: candidate_def Let_def split: if_splits)
  with Move_fail_same[of "peg (tower s) i" "peg (tower s) j"] m
  have "f = peg (tower s) i" "t = peg (tower s) j" by simp_all
  with False m \<open>\<not> ok\<close> show ?thesis
    by (simp add: candidate_def Let_def set_peg_same)
qed

lemma candidate_ok:
  assumes "fst (candidate i j s)"
  shows "previous s \<noteq> int i" and "peg (tower s) i \<noteq> []"
    and "snd (candidate i j s) =
       s\<lparr>tower := set_peg (set_peg (tower s) i (tl (peg (tower s) i))) j
                    (hd (peg (tower s) i) # peg (tower s) j),
         moves := moves s + 1, previous := int j,
         log := log s @
           [\<lparr>src = i, dst = j, last_before = previous s, last_after = int j,
             board = set_peg (set_peg (tower s) i (tl (peg (tower s) i))) j
                       (hd (peg (tower s) i) # peg (tower s) j)\<rparr>]\<rparr>"
    (is "_ = ?s'")
proof -
  show g: "previous s \<noteq> int i" using assms by (auto simp: candidate_def)
  obtain ok f t where m: "Move (peg (tower s) i) (peg (tower s) j) = (ok, f, t)"
    by (cases "Move (peg (tower s) i) (peg (tower s) j)") auto
  from assms g m have ok by (simp add: candidate_def Let_def split: if_splits)
  with Move_ok[of "peg (tower s) i" "peg (tower s) j"] m
  have e: "f = tl (peg (tower s) i)" "t = hd (peg (tower s) i) # peg (tower s) j"
    "peg (tower s) i \<noteq> []" by simp_all
  then show "peg (tower s) i \<noteq> []" by simp
  from g m \<open>ok\<close> e show "snd (candidate i j s) = ?s'"
    by (simp add: candidate_def Let_def)
qed

text \<open>
  A forward candidate moves a disk to a peg of higher index, so the sum of the distances
  of all disks from peg 2 drops: the forward sweep ends.
\<close>

definition forward_weight :: "state \<Rightarrow> nat" where
  "forward_weight s = 2 * length (peg (tower s) 0) + length (peg (tower s) 1)"

lemma candidate_forward:
  assumes "fst (candidate i j s)" and "i < j" and "j \<le> 2"
  shows "forward_weight (snd (candidate i j s)) < forward_weight s"
proof -
  from candidate_ok(2)[OF assms(1)] obtain x xs where "peg (tower s) i = x # xs"
    by (cases "peg (tower s) i") auto
  moreover from assms(2,3) have "(i = 0 \<and> j = 1) \<or> (i = 0 \<and> j = 2) \<or> (i = 1 \<and> j = 2)"
    by arith
  ultimately show ?thesis
    unfolding candidate_ok(3)[OF assms(1)] forward_weight_def
    by (auto simp: peg_set_peg)
qed

text \<open>
  \<^verbatim>\<open>Even\<close> and \<^verbatim>\<open>Odd\<close>: the forward sweep, repeated until none of its three candidates
  is taken. \<^verbatim>\<open>Dump\<close> prints nothing unless \<^verbatim>\<open>_DEBUG\<close> is set and is left out.
\<close>

function Even :: "state \<Rightarrow> state" where
  "Even s =
     (let r1 = candidate 0 1 s in
      if fst r1 then Even (snd r1)
      else let r2 = candidate 0 2 (snd r1) in
        if fst r2 then Even (snd r2)
        else let r3 = candidate 1 2 (snd r2) in
          if fst r3 then Even (snd r3)
          else snd r3)"
  by pat_completeness auto
termination
proof (relation "measure forward_weight")
  show "wf (measure forward_weight)" by simp
qed (auto simp: candidate_fail_same candidate_forward)


function Odd :: "state \<Rightarrow> state" where
  "Odd s =
     (let r1 = candidate 0 2 s in
      if fst r1 then Odd (snd r1)
      else let r2 = candidate 0 1 (snd r1) in
        if fst r2 then Odd (snd r2)
        else let r3 = candidate 1 2 (snd r2) in
          if fst r3 then Odd (snd r3)
          else snd r3)"
  by pat_completeness auto
termination
proof (relation "measure forward_weight")
  show "wf (measure forward_weight)" by simp
qed (auto simp: candidate_fail_same candidate_forward)


declare Even.simps [simp del] Odd.simps [simp del]

text \<open>
  The outer loop of \<^verbatim>\<open>template<typename OddEvenFun> void Hanoi(HanoiTower&, OddEvenFun)\<close>.
  Nothing in the code bounds the number of iterations: when no backward candidate is
  taken the loop test is evaluated again on the same state. So the loop is a partial
  function, and \<open>None\<close> stands for a run that does not return.
\<close>

partial_function (option) Hanoi_loop :: "(state \<Rightarrow> state) \<Rightarrow> nat \<Rightarrow> state \<Rightarrow> state option" where
  "Hanoi_loop move disks_count s =
     (if length (peg (tower s) 2) \<noteq> disks_count then
        (let r1 = candidate 2 0 (move s) in
         if fst r1 then Hanoi_loop move disks_count (snd r1)
         else let r2 = candidate 2 1 (snd r1) in
           if fst r2 then Hanoi_loop move disks_count (snd r2)
           else let r3 = candidate 1 0 (snd r2) in
             if fst r3 then Hanoi_loop move disks_count (snd r3)
             else Hanoi_loop move disks_count (snd r3))
      else Some s)"

declare Hanoi_loop.simps [code]

text \<open>Decimal output of \<^verbatim>\<open>operator<<\<close> for \<^verbatim>\<open>size_t\<close> and \<^verbatim>\<open>int\<close>.\<close>

function show_digits :: "int \<Rightarrow> string" where
  "show_digits n =
     (if n < 10 then [''0123456789'' ! nat n]
      else show_digits (n div 10) @ [''0123456789'' ! nat (n mod 10)])"
  by pat_completeness auto
termination
  by (relation "measure nat") auto

declare show_digits.simps [simp del]

definition show_nat :: "nat \<Rightarrow> string" where
  "show_nat n = show_digits (int n)"

definition show_int :: "int \<Rightarrow> string" where
  "show_int i = (if i < 0 then ''-'' @ show_digits (- i) else show_digits i)"

text \<open>
  The driver: \<^verbatim>\<open>disks_count = tower[0].size(); moves = 0; previous = 2\<close>, the loop, and the
  line written to the standard output. The result is the final state and that line.
\<close>

definition Hanoi_driver :: "HanoiTower \<Rightarrow> (state \<Rightarrow> state) \<Rightarrow> (state \<times> string) option" where
  "Hanoi_driver tw move =
     (let disks_count = length (peg tw 0) in
      case Hanoi_loop move disks_count \<lparr>tower = tw, previous = 2, moves = 0, log = []\<rparr> of
        None \<Rightarrow> None
      | Some s \<Rightarrow>
          Some (s, show_nat disks_count @ '' disks done in '' @ show_int (sint (moves s))
                     @ '' moves''))"

text \<open>\<^verbatim>\<open>void Hanoi(HanoiTower& tower)\<close>: the sweep is chosen by \<^verbatim>\<open>tower[0].size() & 1\<close>.\<close>

definition Hanoi :: "HanoiTower \<Rightarrow> (state \<times> string) option" where
  "Hanoi tw =
     (if length (peg tw 0) AND 1 \<noteq> 0 then Hanoi_driver tw Odd else Hanoi_driver tw Even)"

text \<open>The solver on \<open>N\<close> disks, as \<^verbatim>\<open>main\<close> starts it: \<^verbatim>\<open>{ InitTower(disks_count), {}, {} }\<close>.\<close>

definition solve :: "int \<Rightarrow> (state \<times> string) option" where
  "solve disks_count = Hanoi (InitTower disks_count, [], [])"

section \<open>The command line\<close>

text \<open>
  \<^verbatim>\<open>std::stoi\<close> is the C++ standard library's, not a function of this program. Its model
  follows the standard: leading white space is skipped, then an optional sign and the
  longest run of decimal digits are read; what follows the digits is ignored. Without a
  digit the call throws \<^verbatim>\<open>std::invalid_argument\<close>, and \<^verbatim>\<open>std::out_of_range\<close> when the value
  is not an \<^verbatim>\<open>int\<close>.
\<close>

datatype stoi_error = invalid_argument | out_of_range

definition isspace :: "char \<Rightarrow> bool" where
  "isspace c \<longleftrightarrow> (of_char c :: nat) \<in> {9, 10, 11, 12, 13, 32}"

definition isdigit :: "char \<Rightarrow> bool" where
  "isdigit c \<longleftrightarrow> 48 \<le> (of_char c :: nat) \<and> (of_char c :: nat) \<le> 57"

definition digits_value :: "string \<Rightarrow> int" where
  "digits_value ds = foldl (\<lambda>acc c. 10 * acc + (of_char c - 48)) 0 ds"

definition stoi :: "string \<Rightarrow> stoi_error + int" where
  "stoi str =
     (let s1 = dropWhile isspace str;
          negative = (s1 \<noteq> [] \<and> hd s1 = CHR ''-'');
          s2 = (if s1 \<noteq> [] \<and> (hd s1 = CHR ''-'' \<or> hd s1 = CHR ''+'') then tl s1 else s1);
          ds = takeWhile isdigit s2;
          v = (if negative then - digits_value ds else digits_value ds)
      in if ds = [] then Inl invalid_argument
         else if v < - (2 ^ 31) \<or> 2 ^ 31 - 1 < v then Inl out_of_range
         else Inr v)"

text \<open>
  \<^verbatim>\<open>std::abs\<close> on a 32-bit \<^verbatim>\<open>int\<close>. The absolute value of \<open>- 2 ^ 31\<close> is not an \<^verbatim>\<open>int\<close>, and the
  behaviour of the call is undefined there: the model gives no value.
\<close>

definition std_abs :: "int \<Rightarrow> int option" where
  "std_abs v = (if v = - (2 ^ 31) then None else Some \<bar>v\<bar>)"

text \<open>
  How a call can fail to return: \<^verbatim>\<open>std::stoi\<close> throws, or the behaviour of the code is
  undefined.
\<close>

datatype failure = Thrown stoi_error | Undefined

text \<open>The three notices of \<^verbatim>\<open>DisksCount\<close>.\<close>

definition nl :: string where
  "nl = [CHR 0x0A]"

definition notice_default :: "int \<Rightarrow> string" where
  "notice_default disks_count =
     nl @ ''Need provide a number of disks on program input!'' @ nl @
     ''For now taking default '' @ show_int disks_count @ '' disks'' @ nl @ nl"

definition notice_incorrect :: "int \<Rightarrow> string" where
  "notice_incorrect disks_count =
     nl @ ''Disks count '' @ show_int disks_count @
     '' does not sound correct. You need at least one disk.'' @ nl @
     '' Will keep default 3 disks.'' @ nl @ nl"

definition notice_large :: string where
  "notice_large =
     nl @ ''Large number of disks may take long to move. Working on it, be patient....'' @ nl @ nl"

text \<open>
  \<^verbatim>\<open>int DisksCount(int argc, char* argv[])\<close>: \<open>argv\<close> is the list of arguments with the program
  name first and \<^verbatim>\<open>argc\<close> is its length. The result is the count and what was written to
  the standard output, or the way the call failed to return.
\<close>

definition DisksCount :: "string list \<Rightarrow> failure + (int \<times> string)" where
  "DisksCount argv =
     (let disks_count = 3 in
      if length argv < 2 then Inr (disks_count, notice_default disks_count)
      else
        (case stoi (argv ! 1) of
           Inl e \<Rightarrow> Inl (Thrown e)
         | Inr v \<Rightarrow>
             (case std_abs v of
                None \<Rightarrow> Inl Undefined
              | Some a \<Rightarrow>
                  (let disks_count = a;
                       out1 = (if disks_count < 1 then notice_incorrect disks_count else []);
                       disks_count = (if disks_count < 1 then 3 else disks_count);
                       out2 = (if 25 < disks_count then notice_large else [])
                   in Inr (disks_count, out1 @ out2)))))"

section \<open>The driver as a sequence of moves\<close>

text \<open>
  Both loops only ever change the state through a candidate that is taken. The next move
  of the driver is therefore the first candidate, in the order forward sweep then
  backward sweep, that is taken; the loops are linked to it below.
\<close>

definition forward_candidates :: "bool \<Rightarrow> (nat \<times> nat) list" where
  "forward_candidates od = (if od then [(0, 2), (0, 1), (1, 2)] else [(0, 1), (0, 2), (1, 2)])"

definition backward_candidates :: "(nat \<times> nat) list" where
  "backward_candidates = [(2, 0), (2, 1), (1, 0)]"

fun first_taken :: "(nat \<times> nat) list \<Rightarrow> state \<Rightarrow> state option" where
  "first_taken [] s = None"
| "first_taken ((i, j) # cs) s =
     (if fst (candidate i j s) then Some (snd (candidate i j s)) else first_taken cs s)"

definition next_move :: "bool \<Rightarrow> state \<Rightarrow> state option" where
  "next_move od s = first_taken (forward_candidates od @ backward_candidates) s"

definition sweep :: "bool \<Rightarrow> state \<Rightarrow> state" where
  "sweep od = (if od then Odd else Even)"

lemma first_taken_append:
  "first_taken (xs @ ys) s = (case first_taken xs s of Some s' \<Rightarrow> Some s' | None \<Rightarrow> first_taken ys s)"
  by (induction xs) auto

lemma sweep_taken:
  assumes "first_taken (forward_candidates od) s = Some s1"
  shows "sweep od s = sweep od s1"
proof (cases od)
  case True
  with assms show ?thesis
    by (subst Odd.simps[of s] | simp add: sweep_def forward_candidates_def Let_def candidate_fail_same split: if_splits)+
next
  case False
  with assms show ?thesis
    by (subst Even.simps[of s] | simp add: sweep_def forward_candidates_def Let_def candidate_fail_same split: if_splits)+
qed

lemma sweep_none:
  assumes "first_taken (forward_candidates od) s = None"
  shows "sweep od s = s"
proof (cases od)
  case True
  with assms show ?thesis
    by (subst Odd.simps[of s] | simp add: sweep_def forward_candidates_def Let_def candidate_fail_same split: if_splits)+
next
  case False
  with assms show ?thesis
    by (subst Even.simps[of s] | simp add: sweep_def forward_candidates_def Let_def candidate_fail_same split: if_splits)+
qed


lemma backward_taken:
  assumes "first_taken backward_candidates t = Some s1"
  shows "(let r1 = candidate 2 0 t in
         if fst r1 then Hanoi_loop mv N (snd r1)
         else let r2 = candidate 2 1 (snd r1) in
           if fst r2 then Hanoi_loop mv N (snd r2)
           else let r3 = candidate 1 0 (snd r2) in
             if fst r3 then Hanoi_loop mv N (snd r3)
             else Hanoi_loop mv N (snd r3)) = Hanoi_loop mv N s1"
  using assms
  by (simp add: backward_candidates_def Let_def candidate_fail_same split: if_splits)

lemma backward_none:
  assumes "first_taken backward_candidates t = None"
  shows "(let r1 = candidate 2 0 t in
         if fst r1 then Hanoi_loop mv N (snd r1)
         else let r2 = candidate 2 1 (snd r1) in
           if fst r2 then Hanoi_loop mv N (snd r2)
           else let r3 = candidate 1 0 (snd r2) in
             if fst r3 then Hanoi_loop mv N (snd r3)
             else Hanoi_loop mv N (snd r3)) = Hanoi_loop mv N t"
  using assms
  by (simp add: backward_candidates_def Let_def candidate_fail_same split: if_splits)

lemma Hanoi_loop_unfold:
  "length (peg (tower s) 2) \<noteq> N \<Longrightarrow>
   Hanoi_loop mv N s =
     (let r1 = candidate 2 0 (mv s) in
         if fst r1 then Hanoi_loop mv N (snd r1)
         else let r2 = candidate 2 1 (snd r1) in
           if fst r2 then Hanoi_loop mv N (snd r2)
           else let r3 = candidate 1 0 (snd r2) in
             if fst r3 then Hanoi_loop mv N (snd r3)
             else Hanoi_loop mv N (snd r3))"
  by (subst Hanoi_loop.simps) simp

lemma Hanoi_loop_done:
  "length (peg (tower s) 2) = N \<Longrightarrow> Hanoi_loop mv N s = Some s"
  by (subst Hanoi_loop.simps) simp

lemma Hanoi_loop_step:
  assumes ne: "length (peg (tower s) 2) \<noteq> N"
    and nx: "next_move od s = Some s1"
    and fin: "length (peg (tower s1) 2) = N \<Longrightarrow> next_move od s1 = None"
  shows "Hanoi_loop (sweep od) N s = Hanoi_loop (sweep od) N s1"
proof (cases "first_taken (forward_candidates od) s")
  case None
  with nx have b: "first_taken backward_candidates s = Some s1"
    by (simp add: next_move_def first_taken_append)
  from None have "sweep od s = s" by (rule sweep_none)
  then show ?thesis
    using Hanoi_loop_unfold[OF ne, of "sweep od"] backward_taken[OF b] by simp
next
  case (Some x)
  with nx have x: "x = s1" by (simp add: next_move_def first_taken_append)
  with Some have sw: "sweep od s = sweep od s1" by (simp add: sweep_taken)
  show ?thesis
  proof (cases "length (peg (tower s1) 2) = N")
    case False
    show ?thesis
      unfolding Hanoi_loop_unfold[OF ne] Hanoi_loop_unfold[OF False] sw ..
  next
    case True
    from fin[OF True] have f: "first_taken (forward_candidates od) s1 = None"
      and b: "first_taken backward_candidates s1 = None"
      by (auto simp: next_move_def first_taken_append split: option.splits)
    from f have "sweep od s1 = s1" by (rule sweep_none)
    then show ?thesis
      unfolding Hanoi_loop_unfold[OF ne] sw using backward_none[OF b] by simp
  qed
qed

text \<open>
  \<open>steps od N k s\<close>: the state after \<open>k\<close> moves from \<open>s\<close>, none of them made from a state
  whose peg 2 holds \<open>N\<close> disks; \<open>None\<close> when there are fewer moves than \<open>k\<close>.
\<close>

fun steps :: "bool \<Rightarrow> nat \<Rightarrow> nat \<Rightarrow> state \<Rightarrow> state option" where
  "steps od N 0 s = Some s"
| "steps od N (Suc k) s =
     (if length (peg (tower s) 2) = N then None
      else case next_move od s of None \<Rightarrow> None | Some s1 \<Rightarrow> steps od N k s1)"

lemma steps_add:
  "steps od N (j + k) s = (case steps od N j s of None \<Rightarrow> None | Some s1 \<Rightarrow> steps od N k s1)"
  by (induction j arbitrary: s) (auto split: option.splits)

lemma steps_Hanoi_loop:
  assumes "steps od N k s = Some s'"
    and "length (peg (tower s') 2) = N" and "next_move od s' = None"
  shows "Hanoi_loop (sweep od) N s = Some s'"
  using assms
proof (induction k arbitrary: s)
  case 0
  then show ?case by (simp add: Hanoi_loop_done)
next
  case (Suc k)
  from Suc.prems(1) obtain s1 where ne: "length (peg (tower s) 2) \<noteq> N"
    and nx: "next_move od s = Some s1" and st: "steps od N k s1 = Some s'"
    by (auto split: if_splits option.splits)
  have "length (peg (tower s1) 2) = N \<Longrightarrow> next_move od s1 = None"
  proof -
    assume a: "length (peg (tower s1) 2) = N"
    show ?thesis
    proof (cases k)
      case 0
      with st Suc.prems(3) show ?thesis by simp
    next
      case (Suc k')
      with st a show ?thesis by simp
    qed
  qed
  with ne nx have "Hanoi_loop (sweep od) N s = Hanoi_loop (sweep od) N s1"
    by (rule Hanoi_loop_step)
  with Suc.IH[OF st Suc.prems(2,3)] show ?case by simp
qed


lemma fst_candidate_iff:
  "fst (candidate i j s) \<longleftrightarrow>
     previous s \<noteq> int i \<and> peg (tower s) i \<noteq> [] \<and>
     (peg (tower s) j = [] \<or>
      (odd (hd (peg (tower s) i)) \<noteq> odd (hd (peg (tower s) j)) \<and>
       hd (peg (tower s) i) < hd (peg (tower s) j)))"
  by (simp add: candidate_def Move_eq Let_def)

lemma three_cases: "a < (3::nat) \<Longrightarrow> a = 0 \<or> a = 1 \<or> a = 2"
  by arith

section \<open>Which move the driver makes\<close>

text \<open>
  The next move is the candidate \<open>(a, b)\<close> as soon as it can be taken and every candidate
  tried before it cannot.
\<close>

lemma first_taken_at:
  assumes "(a, b) \<in> set cs" and "fst (candidate a b s)"
    and "\<forall>(i, j) \<in> set (takeWhile (\<lambda>p. p \<noteq> (a, b)) cs). \<not> fst (candidate i j s)"
  shows "first_taken cs s = Some (snd (candidate a b s))"
  using assms
proof (induction cs)
  case Nil
  then show ?case by simp
next
  case (Cons p cs)
  obtain i j where p: "p = (i, j)" by (cases p) auto
  show ?case
  proof (cases "p = (a, b)")
    case True
    with p Cons.prems(2) show ?thesis by simp
  next
    case False
    with Cons.prems p have "\<not> fst (candidate i j s)" and "(a, b) \<in> set cs"
      and "\<forall>(i, j) \<in> set (takeWhile (\<lambda>p. p \<noteq> (a, b)) cs). \<not> fst (candidate i j s)"
      by auto
    with Cons.IH Cons.prems(2) p show ?thesis by simp
  qed
qed

definition all_candidates :: "bool \<Rightarrow> (nat \<times> nat) list" where
  "all_candidates od = forward_candidates od @ backward_candidates"

lemma all_candidates_simps:
  "all_candidates True = [(0, 2), (0, 1), (1, 2), (2, 0), (2, 1), (1, 0)]"
  "all_candidates False = [(0, 1), (0, 2), (1, 2), (2, 0), (2, 1), (1, 0)]"
  by (simp_all add: all_candidates_def forward_candidates_def backward_candidates_def)

lemma next_move_at:
  assumes "(a, b) \<in> set (all_candidates od)" and "fst (candidate a b s)"
    and "\<forall>(i, j) \<in> set (takeWhile (\<lambda>p. p \<noteq> (a, b)) (all_candidates od)). \<not> fst (candidate i j s)"
  shows "next_move od s = Some (snd (candidate a b s))"
  unfolding next_move_def all_candidates_def[symmetric] using assms by (rule first_taken_at)

text \<open>The pegs in a circle: \<open>0 \<rightarrow> 1 \<rightarrow> 2 \<rightarrow> 0\<close> and back.\<close>

definition next_peg :: "nat \<Rightarrow> nat" where
  "next_peg a = (if a = 0 then 1 else if a = 1 then 2 else 0)"

definition prev_peg :: "nat \<Rightarrow> nat" where
  "prev_peg a = (if a = 0 then 2 else if a = 1 then 0 else 1)"

text \<open>
  Disk 1 is on top of peg \<open>a\<close> and was not the last disk moved; the disk on the third
  peg cannot move. Then the driver moves disk 1, one peg back when the number of disks
  is odd and one peg on when it is even.
\<close>

lemma next_move_disk1:
  assumes a: "a < 3"
    and b: "b = (if od then prev_peg a else next_peg a)"
    and c: "c = (if od then next_peg a else prev_peg a)"
    and pa: "hd (peg (tower s) a) = 1" "peg (tower s) a \<noteq> []"
    and szB: "peg (tower s) b = [] \<or> 1 < hd (peg (tower s) b)"
    and szC: "peg (tower s) c = [] \<or> 1 < hd (peg (tower s) c)"
    and parB: "peg (tower s) b = [] \<or> even (hd (peg (tower s) b))"
    and parC: "peg (tower s) c = [] \<or> odd (hd (peg (tower s) c))"
    and E: "od \<Longrightarrow> a \<noteq> 0 \<Longrightarrow> peg (tower s) c \<noteq> []"
    and L: "(previous s = int b \<and> (peg (tower s) c = [] \<or>
               (peg (tower s) b \<noteq> [] \<and> hd (peg (tower s) b) < hd (peg (tower s) c)))) \<or>
            (previous s = int c \<and> (peg (tower s) b = [] \<or>
               (peg (tower s) c \<noteq> [] \<and> hd (peg (tower s) c) < hd (peg (tower s) b))))"
  shows "next_move od s = Some (snd (candidate a b s)) \<and> fst (candidate a b s)"
proof -
  obtain p0 p1 p2 where T: "tower s = (p0, p1, p2)" by (cases "tower s") auto
  from three_cases[OF a] show ?thesis
  proof (elim disjE)
    assume "a = 0"
    with assms T show ?thesis
      by (cases od; intro conjI next_move_at)
        (auto simp: all_candidates_simps fst_candidate_iff next_peg_def prev_peg_def)
  next
    assume "a = 1"
    with assms T show ?thesis
      by (cases od; intro conjI next_move_at)
        (auto simp: all_candidates_simps fst_candidate_iff next_peg_def prev_peg_def)
  next
    assume "a = 2"
    with assms T show ?thesis
      by (cases od; intro conjI next_move_at)
        (auto simp: all_candidates_simps fst_candidate_iff next_peg_def prev_peg_def)
  qed
qed

text \<open>
  Disk 1 is on top of peg \<open>c\<close> and was the last disk moved. Then the driver makes the one
  move between the other two pegs, whatever the order of the forward sweep.
\<close>

lemma next_move_big:
  assumes a: "a < 3"
    and bc: "(b = next_peg a \<and> c = prev_peg a) \<or> (b = prev_peg a \<and> c = next_peg a)"
    and pa: "1 < hd (peg (tower s) a)" "peg (tower s) a \<noteq> []"
    and pc: "hd (peg (tower s) c) = 1" "peg (tower s) c \<noteq> []"
    and pb: "peg (tower s) b = [] \<or>
             (hd (peg (tower s) a) < hd (peg (tower s) b) \<and>
              odd (hd (peg (tower s) a)) \<noteq> odd (hd (peg (tower s) b)))"
    and L: "previous s = int c"
  shows "next_move od s = Some (snd (candidate a b s)) \<and> fst (candidate a b s)"
proof -
  obtain p0 p1 p2 where T: "tower s = (p0, p1, p2)" by (cases "tower s") auto
  from three_cases[OF a] show ?thesis
  proof (elim disjE)
    assume "a = 0"
    with assms T show ?thesis
      by (cases od; elim disjE; intro conjI next_move_at)
        (auto simp: all_candidates_simps fst_candidate_iff next_peg_def prev_peg_def)
  next
    assume "a = 1"
    with assms T show ?thesis
      by (cases od; elim disjE; intro conjI next_move_at)
        (auto simp: all_candidates_simps fst_candidate_iff next_peg_def prev_peg_def)
  next
    assume "a = 2"
    with assms T show ?thesis
      by (cases od; elim disjE; intro conjI next_move_at)
        (auto simp: all_candidates_simps fst_candidate_iff next_peg_def prev_peg_def)
  qed
qed

section \<open>Moving a stack of disks\<close>

text \<open>
  \<open>stack n\<close> is the disks \<open>1, \<dots>, n\<close>, smallest first. The driver moves a stack of \<open>n\<close>
  disks from peg \<open>a\<close> to peg \<open>tgt od n a\<close>, past peg \<open>spr od n a\<close>: a stack whose height has
  the parity of the number of disks goes one peg back, any other one peg on. \<open>A\<close>, \<open>B\<close> and
  \<open>C\<close> are the larger disks under the stack, on the target and on the spare peg.
\<close>

definition stack :: "nat \<Rightarrow> Tower" where
  "stack n = map int [1..<Suc n]"

definition tgt :: "bool \<Rightarrow> nat \<Rightarrow> nat \<Rightarrow> nat" where
  "tgt od n a = (if odd n = od then prev_peg a else next_peg a)"

definition spr :: "bool \<Rightarrow> nat \<Rightarrow> nat \<Rightarrow> nat" where
  "spr od n a = (if odd n = od then next_peg a else prev_peg a)"

text \<open>The number of disks on the board.\<close>

definition total :: "HanoiTower \<Rightarrow> nat" where
  "total T = length (peg T 0) + length (peg T 1) + length (peg T 2)"

text \<open>
  What the driver needs of the larger disks: they are larger; their tops alternate in
  parity with the stack; where the forward sweep would prefer the wrong peg for disk 1,
  that peg is occupied; and the disk moved last is not the one that can move again.
\<close>

definition sizes_ok :: "nat \<Rightarrow> Tower \<Rightarrow> Tower \<Rightarrow> Tower \<Rightarrow> bool" where
  "sizes_ok n A B C \<longleftrightarrow> (\<forall>x \<in> set A \<union> set B \<union> set C. int n < x)"

definition parity_ok :: "nat \<Rightarrow> Tower \<Rightarrow> Tower \<Rightarrow> Tower \<Rightarrow> bool" where
  "parity_ok n A B C \<longleftrightarrow>
     (A = [] \<or> odd (hd A) \<noteq> odd n) \<and> (B = [] \<or> odd (hd B) \<noteq> odd n) \<and>
     (C = [] \<or> odd (hd C) = odd n)"

definition filled_ok :: "bool \<Rightarrow> nat \<Rightarrow> nat \<Rightarrow> Tower \<Rightarrow> Tower \<Rightarrow> Tower \<Rightarrow> bool" where
  "filled_ok od n a A B C \<longleftrightarrow>
     (od \<longrightarrow> (if odd n then a \<noteq> 0 \<longrightarrow> C \<noteq> []
                else (a \<noteq> 1 \<longrightarrow> A \<noteq> []) \<and> (a \<noteq> 0 \<longrightarrow> B \<noteq> []))) \<and>
     (a = 2 \<longrightarrow> B \<noteq> [] \<or> C \<noteq> [])"

definition last_ok :: "int \<Rightarrow> nat \<Rightarrow> nat \<Rightarrow> Tower \<Rightarrow> Tower \<Rightarrow> bool" where
  "last_ok L b c B C \<longleftrightarrow>
     (L = int b \<and> (C = [] \<or> (B \<noteq> [] \<and> hd B < hd C))) \<or>
     (L = int c \<and> (B = [] \<or> (C \<noteq> [] \<and> hd C < hd B)))"

lemma stack_Suc: "stack (Suc n) = stack n @ [int (Suc n)]"
  by (simp add: stack_def)

lemma stack_1: "stack (Suc 0) = [1]"
  by (simp add: stack_def)

lemma length_stack: "length (stack n) = n"
  by (simp add: stack_def)

lemma stack_hd: "0 < n \<Longrightarrow> stack n \<noteq> [] \<and> hd (stack n @ X) = 1"
  by (cases n) (simp_all add: stack_def upt_rec)

lemma pegs_sub:
  assumes "a < 3"
  shows "tgt od n a = spr od (Suc n) a" and "spr od n a = tgt od (Suc n) a"
    and "tgt od n (spr od (Suc n) a) = tgt od (Suc n) a"
    and "spr od n (spr od (Suc n) a) = a"
  using three_cases[OF assms]
  by (auto simp: tgt_def spr_def next_peg_def prev_peg_def)

lemma pegs_distinct:
  assumes "a < 3"
  shows "tgt od n a < 3" and "spr od n a < 3" and "tgt od n a \<noteq> a" and "spr od n a \<noteq> a"
    and "tgt od n a \<noteq> spr od n a"
  using three_cases[OF assms]
  by (auto simp: tgt_def spr_def next_peg_def prev_peg_def)

lemma total_pegs:
  assumes "a < 3"
  shows "total T = length (peg T a) + length (peg T (tgt od n a)) + length (peg T (spr od n a))"
  using three_cases[OF assms]
  by (cases T) (auto simp: total_def tgt_def spr_def next_peg_def prev_peg_def)

lemma sizes_ok_sub:
  assumes "sizes_ok (Suc n) A B C"
  shows "sizes_ok n (int (Suc n) # A) C B" and "sizes_ok n C (int (Suc n) # B) A"
proof -
  have "int n < x" if "x \<in> set A \<union> set B \<union> set C" for x
  proof -
    from assms that have "int (Suc n) < x" unfolding sizes_ok_def by (rule bspec)
    then show ?thesis by simp
  qed
  then show "sizes_ok n (int (Suc n) # A) C B" and "sizes_ok n C (int (Suc n) # B) A"
    by (auto simp: sizes_ok_def)
qed

lemma parity_ok_sub:
  assumes "parity_ok (Suc n) A B C"
  shows "parity_ok n (int (Suc n) # A) C B" and "parity_ok n C (int (Suc n) # B) A"
  using assms by (auto simp: parity_ok_def)

lemma filled_ok_sub1:
  assumes "filled_ok od (Suc n) a A B C"
  shows "filled_ok od n a (int (Suc n) # A) C B"
  using assms by (auto simp: filled_ok_def split: if_splits)

lemma filled_ok_sub2:
  assumes "filled_ok od (Suc n) a A B C" "a < 3"
  shows "filled_ok od n (spr od (Suc n) a) C (int (Suc n) # B) A"
  using assms(1) three_cases[OF assms(2)]
  by (auto simp: filled_ok_def spr_def next_peg_def prev_peg_def split: if_splits)

lemma last_ok_sub1:
  assumes "last_ok L b c B C"
  shows "last_ok L c b C B"
  using assms by (auto simp: last_ok_def)

lemma last_ok_sub2:
  assumes "sizes_ok n A B C"
  shows "last_ok (int b) b a (int n # B) A"
  using assms by (cases A) (auto simp: last_ok_def sizes_ok_def)


lemma after_candidate:
  assumes "fst (candidate a b s)" and "a < 3" and "b < 3" and "a \<noteq> b"
  shows "peg (tower (snd (candidate a b s))) a = tl (peg (tower s) a)"
    and "peg (tower (snd (candidate a b s))) b = hd (peg (tower s) a) # peg (tower s) b"
    and "c < 3 \<Longrightarrow> c \<noteq> a \<Longrightarrow> c \<noteq> b \<Longrightarrow>
           peg (tower (snd (candidate a b s))) c = peg (tower s) c"
    and "previous (snd (candidate a b s)) = int b"
  using assms(2-) unfolding candidate_ok(3)[OF assms(1)]
  by (auto simp: peg_set_peg)

lemma not_full:
  assumes "a < 3" and "total T = N" and "peg T a \<noteq> []"
    and "a = 2 \<Longrightarrow> peg T (tgt od n a) \<noteq> [] \<or> peg T (spr od n a) \<noteq> []"
  shows "length (peg T 2) \<noteq> N"
proof -
  obtain p0 p1 p2 where T: "T = (p0, p1, p2)" by (cases T) auto
  from three_cases[OF assms(1)] show ?thesis
  proof (elim disjE)
    assume "a = 0" with assms(2,3) T show ?thesis by (auto simp: total_def)
  next
    assume "a = 1" with assms(2,3) T show ?thesis by (auto simp: total_def)
  next
    assume a2: "a = 2"
    from assms(4)[OF a2] have "p0 \<noteq> [] \<or> p1 \<noteq> []"
      unfolding a2 T by (auto simp: tgt_def spr_def next_peg_def prev_peg_def split: if_splits)
    with assms(2) T show ?thesis by (auto simp: total_def)
  qed
qed

lemma steps_one:
  "length (peg (tower s) 2) \<noteq> N \<Longrightarrow> next_move od s = Some s1 \<Longrightarrow> steps od N (Suc 0) s = Some s1"
  by simp

lemma run_disk1:
  assumes a: "a < 3"
    and sz: "sizes_ok (Suc 0) A B C" and par: "parity_ok (Suc 0) A B C"
    and fl: "filled_ok od (Suc 0) a A B C"
    and la: "last_ok (previous s) (tgt od (Suc 0) a) (spr od (Suc 0) a) B C"
    and pa: "peg (tower s) a = 1 # A"
    and pb: "peg (tower s) (tgt od (Suc 0) a) = B"
    and pc: "peg (tower s) (spr od (Suc 0) a) = C"
    and tot: "total (tower s) = N"
  shows "\<exists>s'. steps od N (Suc 0) s = Some s' \<and> peg (tower s') a = A \<and>
           peg (tower s') (tgt od (Suc 0) a) = 1 # B \<and>
           peg (tower s') (spr od (Suc 0) a) = C \<and>
           previous s' = int (tgt od (Suc 0) a)"
proof -
  let ?b = "tgt od (Suc 0) a" and ?c = "spr od (Suc 0) a"
  note d = pegs_distinct[OF a, of od "Suc 0"]
  have szB: "B = [] \<or> 1 < hd B" using sz by (cases B) (auto simp: sizes_ok_def)
  have szC: "C = [] \<or> 1 < hd C" using sz by (cases C) (auto simp: sizes_ok_def)
  have parB: "B = [] \<or> even (hd B)" and parC: "C = [] \<or> odd (hd C)"
    using par by (auto simp: parity_ok_def)
  have E: "od \<Longrightarrow> a \<noteq> 0 \<Longrightarrow> C \<noteq> []" using fl by (simp add: filled_ok_def)
  have nm: "next_move od s = Some (snd (candidate a ?b s)) \<and> fst (candidate a ?b s)"
  proof (rule next_move_disk1[where c = ?c])
    show "a < 3" by fact
    show "?b = (if od then prev_peg a else next_peg a)" by (simp add: tgt_def)
    show "?c = (if od then next_peg a else prev_peg a)" by (simp add: spr_def)
    show "hd (peg (tower s) a) = 1" "peg (tower s) a \<noteq> []" using pa by simp_all
    show "peg (tower s) ?b = [] \<or> 1 < hd (peg (tower s) ?b)" using szB pb by simp
    show "peg (tower s) ?c = [] \<or> 1 < hd (peg (tower s) ?c)" using szC pc by simp
    show "peg (tower s) ?b = [] \<or> even (hd (peg (tower s) ?b))" using parB pb by simp
    show "peg (tower s) ?c = [] \<or> odd (hd (peg (tower s) ?c))" using parC pc by simp
    show "peg (tower s) ?c \<noteq> []" if "od" "a \<noteq> 0" using E[OF that] pc by simp
    show "(previous s = int ?b \<and> (peg (tower s) ?c = [] \<or>
               (peg (tower s) ?b \<noteq> [] \<and> hd (peg (tower s) ?b) < hd (peg (tower s) ?c)))) \<or>
            (previous s = int ?c \<and> (peg (tower s) ?b = [] \<or>
               (peg (tower s) ?c \<noteq> [] \<and> hd (peg (tower s) ?c) < hd (peg (tower s) ?b))))"
      using la unfolding last_ok_def pb pc .
  qed
  have "length (peg (tower s) 2) \<noteq> N"
  proof (rule not_full[OF a tot, of od "Suc 0"])
    show "peg (tower s) a \<noteq> []" using pa by simp
    show "peg (tower s) ?b \<noteq> [] \<or> peg (tower s) ?c \<noteq> []" if "a = 2"
      using fl that unfolding pb pc by (simp add: filled_ok_def)
  qed
  with nm have "steps od N (Suc 0) s = Some (snd (candidate a ?b s))"
    by (simp add: steps_one)
  moreover note ac = after_candidate[OF conjunct2[OF nm] a d(1) d(3)[symmetric]]
  have "peg (tower (snd (candidate a ?b s))) a = A" using ac(1) pa by simp
  moreover have "peg (tower (snd (candidate a ?b s))) ?b = 1 # B" using ac(2) pa pb by simp
  moreover have "peg (tower (snd (candidate a ?b s))) ?c = C" using ac(3)[of ?c] d pc by simp
  moreover have "previous (snd (candidate a ?b s)) = int ?b" using ac(4) .
  ultimately show ?thesis by blast
qed


lemma run_big:
  assumes a: "a < 3" and n: "0 < n"
    and sz: "sizes_ok (Suc n) A B C" and par: "parity_ok (Suc n) A B C"
    and pa: "peg (tower s) a = int (Suc n) # A"
    and pb: "peg (tower s) (tgt od (Suc n) a) = B"
    and pc: "peg (tower s) (spr od (Suc n) a) = stack n @ C"
    and la: "previous s = int (spr od (Suc n) a)"
    and tot: "total (tower s) = N"
  shows "\<exists>s'. steps od N (Suc 0) s = Some s' \<and> peg (tower s') a = A \<and>
           peg (tower s') (tgt od (Suc n) a) = int (Suc n) # B \<and>
           peg (tower s') (spr od (Suc n) a) = stack n @ C \<and>
           previous s' = int (tgt od (Suc n) a)"
proof -
  let ?b = "tgt od (Suc n) a" and ?c = "spr od (Suc n) a"
  note d = pegs_distinct[OF a, of od "Suc n"]
  note h = stack_hd[OF n, of C]
  have szB: "B = [] \<or> int (Suc n) < hd B" using sz by (cases B) (auto simp: sizes_ok_def)
  have parB: "B = [] \<or> odd (int (Suc n)) \<noteq> odd (hd B)"
    using par by (auto simp: parity_ok_def)
  have nm: "next_move od s = Some (snd (candidate a ?b s)) \<and> fst (candidate a ?b s)"
  proof (rule next_move_big[where c = ?c])
    show "a < 3" by fact
    show "(?b = next_peg a \<and> ?c = prev_peg a) \<or> (?b = prev_peg a \<and> ?c = next_peg a)"
      by (simp add: tgt_def spr_def)
    show "1 < hd (peg (tower s) a)" "peg (tower s) a \<noteq> []" using pa n by simp_all
    show "hd (peg (tower s) ?c) = 1" "peg (tower s) ?c \<noteq> []" using pc h by simp_all
    show "peg (tower s) ?b = [] \<or>
             (hd (peg (tower s) a) < hd (peg (tower s) ?b) \<and>
              odd (hd (peg (tower s) a)) \<noteq> odd (hd (peg (tower s) ?b)))"
      using szB parB unfolding pa pb by auto
    show "previous s = int ?c" by fact
  qed
  have "length (peg (tower s) 2) \<noteq> N"
  proof (rule not_full[OF a tot, of od "Suc n"])
    show "peg (tower s) a \<noteq> []" using pa by simp
    show "peg (tower s) ?b \<noteq> [] \<or> peg (tower s) ?c \<noteq> []" using pc h by simp
  qed
  with nm have "steps od N (Suc 0) s = Some (snd (candidate a ?b s))"
    by (simp add: steps_one)
  moreover note ac = after_candidate[OF conjunct2[OF nm] a d(1) d(3)[symmetric]]
  have "peg (tower (snd (candidate a ?b s))) a = A" using ac(1) pa by simp
  moreover have "peg (tower (snd (candidate a ?b s))) ?b = int (Suc n) # B"
    using ac(2) pa pb by simp
  moreover have "peg (tower (snd (candidate a ?b s))) ?c = stack n @ C"
    using ac(3)[of ?c] d pc by simp
  moreover have "previous (snd (candidate a ?b s)) = int ?b" using ac(4) .
  ultimately show ?thesis by blast
qed

lemma run_stack:
  assumes "0 < n" and "a < 3"
    and "sizes_ok n A B C" and "parity_ok n A B C" and "filled_ok od n a A B C"
    and "last_ok (previous s) (tgt od n a) (spr od n a) B C"
    and "peg (tower s) a = stack n @ A"
    and "peg (tower s) (tgt od n a) = B"
    and "peg (tower s) (spr od n a) = C"
    and "total (tower s) = N"
  shows "\<exists>s'. steps od N (2 ^ n - 1) s = Some s' \<and> peg (tower s') a = A \<and>
           peg (tower s') (tgt od n a) = stack n @ B \<and>
           peg (tower s') (spr od n a) = C \<and>
           previous s' = int (tgt od n a)"
  using assms
proof (induction n arbitrary: s a A B C)
  case 0
  then show ?case by simp
next
  case (Suc n)
  show ?case
  proof (cases "n = 0")
    case True
    have "\<exists>s'. steps od N (Suc 0) s = Some s' \<and> peg (tower s') a = A \<and>
           peg (tower s') (tgt od (Suc 0) a) = 1 # B \<and>
           peg (tower s') (spr od (Suc 0) a) = C \<and>
           previous s' = int (tgt od (Suc 0) a)"
      using Suc.prems True by (intro run_disk1) (simp_all add: stack_1)
    with True show ?thesis by (simp add: stack_1)
  next
    case False
    then have n: "0 < n" by simp
    let ?b = "tgt od (Suc n) a" and ?c = "spr od (Suc n) a"
    note a = \<open>a < 3\<close>
    note d = pegs_distinct[OF a, of od "Suc n"]
    note ps = pegs_sub[OF a, of od n]
    note sz = \<open>sizes_ok (Suc n) A B C\<close> and par = \<open>parity_ok (Suc n) A B C\<close>
      and fl = \<open>filled_ok od (Suc n) a A B C\<close>
    \<comment> \<open>the upper n disks go from a to c\<close>
    have "\<exists>s1. steps od N (2 ^ n - 1) s = Some s1 \<and> peg (tower s1) a = int (Suc n) # A \<and>
            peg (tower s1) (tgt od n a) = stack n @ C \<and>
            peg (tower s1) (spr od n a) = B \<and>
            previous s1 = int (tgt od n a)"
    proof (rule Suc.IH[OF n a])
      show "sizes_ok n (int (Suc n) # A) C B" by (rule sizes_ok_sub(1)[OF sz])
      show "parity_ok n (int (Suc n) # A) C B" by (rule parity_ok_sub(1)[OF par])
      show "filled_ok od n a (int (Suc n) # A) C B" by (rule filled_ok_sub1[OF fl])
      show "last_ok (previous s) (tgt od n a) (spr od n a) C B"
        unfolding ps using Suc.prems(6) by (rule last_ok_sub1)
      show "peg (tower s) a = stack n @ int (Suc n) # A"
        using Suc.prems(7) by (simp add: stack_Suc)
      show "peg (tower s) (tgt od n a) = C" unfolding ps by fact
      show "peg (tower s) (spr od n a) = B" unfolding ps by fact
      show "total (tower s) = N" by fact
    qed
    then obtain s1 where s1: "steps od N (2 ^ n - 1) s = Some s1"
      and s1a: "peg (tower s1) a = int (Suc n) # A"
      and s1c: "peg (tower s1) ?c = stack n @ C"
      and s1b: "peg (tower s1) ?b = B"
      and s1l: "previous s1 = int ?c"
      unfolding ps by blast
    have t1: "total (tower s1) = N"
      using Suc.prems(7,8,9,10)
      unfolding total_pegs[OF a, of _ od "Suc n"] s1a s1b s1c
      by (simp add: length_stack stack_Suc)
    \<comment> \<open>disk n + 1 goes from a to b\<close>
    from run_big[OF a n sz par s1a s1b s1c s1l t1]
    obtain s2 where s2: "steps od N (Suc 0) s1 = Some s2"
      and s2a: "peg (tower s2) a = A"
      and s2b: "peg (tower s2) ?b = int (Suc n) # B"
      and s2c: "peg (tower s2) ?c = stack n @ C"
      and s2l: "previous s2 = int ?b"
      by blast
    have t2: "total (tower s2) = N"
      using t1
      unfolding total_pegs[OF a, of _ od "Suc n"] s1a s1b s1c s2a s2b s2c
      by simp
    \<comment> \<open>the upper n disks go from c to b\<close>
    have "\<exists>s3. steps od N (2 ^ n - 1) s2 = Some s3 \<and> peg (tower s3) ?c = C \<and>
            peg (tower s3) (tgt od n ?c) = stack n @ int (Suc n) # B \<and>
            peg (tower s3) (spr od n ?c) = A \<and>
            previous s3 = int (tgt od n ?c)"
    proof (rule Suc.IH[OF n d(2)])
      show "sizes_ok n C (int (Suc n) # B) A" by (rule sizes_ok_sub(2)[OF sz])
      show "parity_ok n C (int (Suc n) # B) A" by (rule parity_ok_sub(2)[OF par])
      show "filled_ok od n ?c C (int (Suc n) # B) A" by (rule filled_ok_sub2[OF fl a])
      show "last_ok (previous s2) (tgt od n ?c) (spr od n ?c) (int (Suc n) # B) A"
        unfolding ps s2l by (rule last_ok_sub2[OF sz])
      show "peg (tower s2) ?c = stack n @ C" by fact
      show "peg (tower s2) (tgt od n ?c) = int (Suc n) # B" unfolding ps by fact
      show "peg (tower s2) (spr od n ?c) = A" unfolding ps by fact
      show "total (tower s2) = N" by fact
    qed
    then obtain s3 where s3: "steps od N (2 ^ n - 1) s2 = Some s3"
      and s3c: "peg (tower s3) ?c = C"
      and s3b: "peg (tower s3) ?b = stack (Suc n) @ B"
      and s3a: "peg (tower s3) a = A"
      and s3l: "previous s3 = int ?b"
      unfolding ps by (auto simp: stack_Suc)
    have "(2::nat) ^ Suc n - 1 = (2 ^ n - 1) + (Suc 0 + (2 ^ n - 1))"
      by simp
    then have "steps od N (2 ^ Suc n - 1) s = Some s3"
      using s1 s2 s3 by (simp only: steps_add option.case)
    with s3a s3b s3c s3l show ?thesis by blast
  qed
qed

section \<open>Facts about every move\<close>

lemma next_move_SomeD:
  assumes "next_move od s = Some s1"
  shows "\<exists>i j. (i, j) \<in> set (all_candidates od) \<and> fst (candidate i j s) \<and> s1 = snd (candidate i j s)"
proof -
  have "first_taken cs s = Some s1 \<Longrightarrow>
        \<exists>i j. (i, j) \<in> set cs \<and> fst (candidate i j s) \<and> s1 = snd (candidate i j s)" for cs
  proof (induction cs)
    case Nil
    then show ?case by simp
  next
    case (Cons p cs)
    obtain a b where p: "p = (a, b)" by (cases p) auto
    show ?case
    proof (cases "fst (candidate a b s)")
      case True
      with Cons.prems p have "s1 = snd (candidate a b s)" by simp
      with True p show ?thesis by auto
    next
      case False
      with Cons.prems p have "first_taken cs s = Some s1" by simp
      from Cons.IH[OF this] show ?thesis by auto
    qed
  qed
  from this[of "all_candidates od"] assms show ?thesis
    unfolding next_move_def all_candidates_def by blast
qed

lemma next_move_NoneD:
  assumes "next_move od s = None" and "(i, j) \<in> set (all_candidates od)"
  shows "\<not> fst (candidate i j s)"
proof -
  have "first_taken cs s = None \<Longrightarrow> (i, j) \<in> set cs \<Longrightarrow> \<not> fst (candidate i j s)" for cs
  proof (induction cs)
    case Nil
    then show ?case by simp
  next
    case (Cons p cs)
    obtain a b where p: "p = (a, b)" by (cases p) auto
    from Cons.prems(1) p have nf: "\<not> fst (candidate a b s)" and r: "first_taken cs s = None"
      by (auto split: if_splits)
    show ?case
    proof (cases "(i, j) = (a, b)")
      case True
      with nf show ?thesis by simp
    next
      case False
      with Cons.prems(2) p have "(i, j) \<in> set cs" by auto
      with Cons.IH[OF r] show ?thesis by simp
    qed
  qed
  from this[of "all_candidates od"] assms show ?thesis
    unfolding next_move_def all_candidates_def by blast
qed

lemma all_candidates_pegs:
  "(i, j) \<in> set (all_candidates od) \<Longrightarrow> i < 3 \<and> j < 3 \<and> i \<noteq> j"
  by (cases od) (auto simp: all_candidates_simps)

lemma steps_moves: "steps od N k s = Some s' \<Longrightarrow> moves s' = moves s + of_nat k"
proof (induction k arbitrary: s)
  case 0
  then show ?case by simp
next
  case (Suc k)
  from Suc.prems obtain s1 where nx: "next_move od s = Some s1" and st: "steps od N k s1 = Some s'"
    by (auto split: if_splits option.splits)
  from next_move_SomeD[OF nx] obtain i j where "fst (candidate i j s)" "s1 = snd (candidate i j s)"
    by blast
  then have "moves s1 = moves s + 1" by (simp add: candidate_ok(3))
  with Suc.IH[OF st] show ?case by simp
qed


section \<open>The whole run\<close>

lemma next_move_final:
  assumes "peg (tower s) 0 = []" "peg (tower s) 1 = []" "previous s = 2"
  shows "next_move od s = None"
proof -
  have "\<not> fst (candidate i j s)" if "(i, j) \<in> set (all_candidates od)" for i j
    using that assms by (cases od) (auto simp: all_candidates_simps fst_candidate_iff)
  then have "first_taken cs s = None" if "set cs \<subseteq> set (all_candidates od)" for cs
    using that by (induction cs) auto
  from this[of "all_candidates od"] show ?thesis
    by (simp add: next_move_def all_candidates_def)
qed

subsection \<open>The initial peg\<close>

lemma InitTower_loop_upto: "InitTower_loop i n acc = acc @ [i..n]"
proof (induction i n acc rule: InitTower_loop.induct)
  case (1 i n acc)
  show ?case
  proof (cases "i \<le> n")
    case True
    with 1 show ?thesis
      by (subst InitTower_loop.simps) (simp add: upto_rec1[of i n])
  next
    case False
    then show ?thesis by (subst InitTower_loop.simps) simp
  qed
qed

lemma upto_stack: "[1..int n] = stack n"
proof (induction n)
  case 0
  then show ?case by (simp add: stack_def)
next
  case (Suc n)
  have "[1..int (Suc n)] = [1..int (Suc n) - 1] @ [int (Suc n)]"
    by (rule upto_rec2) simp
  with Suc show ?case by (simp add: stack_Suc)
qed

lemma InitTower_stack: "InitTower (int n) = stack n"
  by (simp add: InitTower_def InitTower_loop_upto upto_stack)

text \<open>The state in which the driver enters its loop on \<open>n\<close> disks.\<close>

definition start :: "nat \<Rightarrow> state" where
  "start n = \<lparr>tower = (stack n, [], []), previous = 2, moves = 0, log = []\<rparr>"

lemma run_start:
  assumes "0 < n"
  shows "\<exists>s'. steps (odd n) n (2 ^ n - 1) (start n) = Some s' \<and>
           tower s' = ([], [], stack n) \<and> previous s' = 2"
proof -
  have b: "tgt (odd n) n 0 = 2" and c: "spr (odd n) n 0 = 1"
    by (simp_all add: tgt_def spr_def prev_peg_def next_peg_def)
  have "\<exists>s'. steps (odd n) n (2 ^ n - 1) (start n) = Some s' \<and> peg (tower s') 0 = [] \<and>
           peg (tower s') (tgt (odd n) n 0) = stack n @ [] \<and>
           peg (tower s') (spr (odd n) n 0) = [] \<and>
           previous s' = int (tgt (odd n) n 0)"
  proof (rule run_stack[OF assms])
    show "(0::nat) < 3" by simp
    show "sizes_ok n [] [] []" by (simp add: sizes_ok_def)
    show "parity_ok n [] [] []" by (simp add: parity_ok_def)
    show "filled_ok (odd n) n 0 [] [] []" by (simp add: filled_ok_def)
    show "last_ok (previous (start n)) (tgt (odd n) n 0) (spr (odd n) n 0) [] []"
      unfolding b by (simp add: last_ok_def start_def)
    show "peg (tower (start n)) 0 = stack n @ []" by (simp add: start_def)
    show "peg (tower (start n)) (tgt (odd n) n 0) = []" unfolding b by (simp add: start_def)
    show "peg (tower (start n)) (spr (odd n) n 0) = []" unfolding c by (simp add: start_def)
    show "total (tower (start n)) = n" by (simp add: start_def total_def length_stack)
  qed
  then obtain s' where s': "steps (odd n) n (2 ^ n - 1) (start n) = Some s'"
    and p: "peg (tower s') 0 = []" "peg (tower s') 2 = stack n" "peg (tower s') 1 = []"
    and l: "previous s' = 2"
    unfolding b c by auto
  obtain p0 p1 p2 where T: "tower s' = (p0, p1, p2)" by (cases "tower s'") auto
  from p have "tower s' = ([], [], stack n)" unfolding T by simp
  with s' l show ?thesis by blast
qed

lemma Hanoi_loop_start:
  assumes "0 < n"
  shows "\<exists>s'. Hanoi_loop (sweep (odd n)) n (start n) = Some s' \<and>
           steps (odd n) n (2 ^ n - 1) (start n) = Some s' \<and>
           tower s' = ([], [], stack n) \<and> previous s' = 2"
proof -
  from run_start[OF assms] obtain s' where s': "steps (odd n) n (2 ^ n - 1) (start n) = Some s'"
    "tower s' = ([], [], stack n)" "previous s' = 2" by blast
  have "Hanoi_loop (sweep (odd n)) n (start n) = Some s'"
    using s'(1)
  proof (rule steps_Hanoi_loop)
    show "length (peg (tower s') 2) = n" using s'(2) by (simp add: length_stack)
    show "next_move (odd n) s' = None" using s'(2,3) by (intro next_move_final) simp_all
  qed
  with s' show ?thesis by blast
qed

lemma nat_low_bit_odd: "(n AND 1 \<noteq> 0) = odd (n::nat)"
  by (simp add: and_one_eq odd_iff_mod_2_eq_one)

lemma solve_run:
  assumes "0 < n"
  shows "\<exists>s. solve (int n) =
               Some (s, show_nat n @ '' disks done in '' @ show_int (sint (moves s)) @ '' moves'') \<and>
             steps (odd n) n (2 ^ n - 1) (start n) = Some s \<and>
             tower s = ([], [], stack n) \<and> previous s = 2"
proof -
  from Hanoi_loop_start[OF assms] obtain s where
    h: "Hanoi_loop (sweep (odd n)) n (start n) = Some s"
    and r: "steps (odd n) n (2 ^ n - 1) (start n) = Some s" "tower s = ([], [], stack n)"
      "previous s = 2"
    by blast
  have "Hanoi_driver (stack n, [], []) (sweep (odd n)) =
          Some (s, show_nat n @ '' disks done in '' @ show_int (sint (moves s)) @ '' moves'')"
    using h by (simp add: Hanoi_driver_def length_stack start_def)
  then have "solve (int n) =
          Some (s, show_nat n @ '' disks done in '' @ show_int (sint (moves s)) @ '' moves'')"
    unfolding solve_def InitTower_stack Hanoi_def nat_low_bit_odd sweep_def
    by (cases "odd n") (simp_all add: length_stack)
  with r show ?thesis by blast
qed

lemma solve_moves:
  assumes "0 < n"
  shows "\<exists>s. solve (int n) =
               Some (s, show_nat n @ '' disks done in '' @ show_int (sint (moves s)) @ '' moves'') \<and>
             moves s = of_nat (2 ^ n - 1)"
proof -
  from solve_run[OF assms] obtain s where
    s: "solve (int n) =
               Some (s, show_nat n @ '' disks done in '' @ show_int (sint (moves s)) @ '' moves'')"
    and r: "steps (odd n) n (2 ^ n - 1) (start n) = Some s"
    by blast
  from steps_moves[OF r] have "moves s = of_nat (2 ^ n - 1)" by (simp add: start_def)
  with s show ?thesis by blast
qed

lemma sint_count:
  assumes "n \<le> 31"
  shows "sint (of_nat (2 ^ n - 1) :: 32 word) = 2 ^ n - 1"
proof -
  have e: "int (2 ^ n - 1) = 2 ^ n - 1" by (simp add: of_nat_diff)
  have p: "(2::int) ^ n \<le> 2 ^ 31" using assms by (rule power_increasing) simp
  have z: "(0::int) < 2 ^ n" by simp
  have "sint (of_nat m :: 32 word) = signed_take_bit 31 (int m)" for m
    by (simp add: signed_of_nat)
  then have "sint (of_nat (2 ^ n - 1) :: 32 word) = signed_take_bit 31 (int (2 ^ n - 1))" .
  also have "\<dots> = int (2 ^ n - 1)"
  proof (rule signed_take_bit_int_eq_self)
    have "- (2 ^ 31) \<le> (0::int)" by simp
    with z show "- (2 ^ 31) \<le> int (2 ^ n - 1)" unfolding e by linarith
    show "int (2 ^ n - 1) < 2 ^ 31" unfolding e using p by linarith
  qed
  finally show ?thesis unfolding e .
qed

lemma sint_count_32: "sint (of_nat (2 ^ 32 - 1) :: 32 word) = - 1"
  by simp

lemma show_32: "show_nat 32 = ''32''" "show_int (- 1) = ''-1''"
  by (simp_all add: show_digits.simps show_nat_def show_int_def)

section \<open>The log of a run\<close>

text \<open>
  The log of a run is a chain: each event is the next move of the driver from the board
  and the value of \<open>previous\<close> that the event before it left.
\<close>

definition config :: "HanoiTower \<Rightarrow> int \<Rightarrow> state" where
  "config T L = \<lparr>tower = T, previous = L, moves = 0, log = []\<rparr>"

fun run_from :: "bool \<Rightarrow> nat \<Rightarrow> HanoiTower \<Rightarrow> int \<Rightarrow> event list \<Rightarrow> bool" where
  "run_from od N T L [] = True"
| "run_from od N T L (e # es) =
     (length (peg T 2) \<noteq> N \<and> map_option log (next_move od (config T L)) = Some [e] \<and>
      run_from od N (board e) (last_after e) es)"

lemma fst_candidate_config:
  "fst (candidate i j (config (tower s) (previous s))) = fst (candidate i j s)"
  by (simp add: fst_candidate_iff config_def)

lemma snd_candidate_config:
  assumes "fst (candidate i j s)"
  shows "tower (snd (candidate i j s)) = tower (snd (candidate i j (config (tower s) (previous s))))"
    and "previous (snd (candidate i j s)) = previous (snd (candidate i j (config (tower s) (previous s))))"
    and "log (snd (candidate i j s)) = log s @ log (snd (candidate i j (config (tower s) (previous s))))"
proof -
  from assms have c: "fst (candidate i j (config (tower s) (previous s)))"
    by (simp add: fst_candidate_config)
  show "tower (snd (candidate i j s)) = tower (snd (candidate i j (config (tower s) (previous s))))"
    and "previous (snd (candidate i j s)) = previous (snd (candidate i j (config (tower s) (previous s))))"
    and "log (snd (candidate i j s)) = log s @ log (snd (candidate i j (config (tower s) (previous s))))"
    unfolding candidate_ok(3)[OF assms] candidate_ok(3)[OF c]
    by (simp_all add: config_def)
qed

lemma first_taken_config:
  "first_taken cs s = Some s1 \<Longrightarrow>
     \<exists>t. first_taken cs (config (tower s) (previous s)) = Some t \<and>
       tower s1 = tower t \<and> previous s1 = previous t \<and> log s1 = log s @ log t"
proof (induction cs)
  case Nil
  then show ?case by simp
next
  case (Cons p cs)
  obtain i j where p: "p = (i, j)" by (cases p) auto
  show ?case
  proof (cases "fst (candidate i j s)")
    case True
    with Cons.prems p have "s1 = snd (candidate i j s)" by simp
    with True p snd_candidate_config[OF True] show ?thesis
      by (simp add: fst_candidate_config)
  next
    case False
    with Cons.prems p have "first_taken cs s = Some s1" by simp
    from Cons.IH[OF this] False p show ?thesis by (simp add: fst_candidate_config)
  qed
qed

lemma event_of_move:
  assumes "next_move od (config T L) = Some t"
  shows "\<exists>i j. (i, j) \<in> set (all_candidates od) \<and> L \<noteq> int i \<and> peg T i \<noteq> [] \<and>
           (peg T j = [] \<or> (odd (hd (peg T i)) \<noteq> odd (hd (peg T j)) \<and> hd (peg T i) < hd (peg T j))) \<and>
           tower t = set_peg (set_peg T i (tl (peg T i))) j (hd (peg T i) # peg T j) \<and>
           previous t = int j \<and>
           log t = [\<lparr>src = i, dst = j, last_before = L, last_after = int j,
                     board = set_peg (set_peg T i (tl (peg T i))) j (hd (peg T i) # peg T j)\<rparr>]"
proof -
  from next_move_SomeD[OF assms] obtain i j where m: "(i, j) \<in> set (all_candidates od)"
    and c: "fst (candidate i j (config T L))" and t: "t = snd (candidate i j (config T L))"
    by blast
  from c have "L \<noteq> int i \<and> peg T i \<noteq> [] \<and>
           (peg T j = [] \<or> (odd (hd (peg T i)) \<noteq> odd (hd (peg T j)) \<and> hd (peg T i) < hd (peg T j)))"
    by (simp add: fst_candidate_iff config_def)
  moreover have "tower t = set_peg (set_peg T i (tl (peg T i))) j (hd (peg T i) # peg T j)"
    "previous t = int j"
    "log t = [\<lparr>src = i, dst = j, last_before = L, last_after = int j,
                     board = set_peg (set_peg T i (tl (peg T i))) j (hd (peg T i) # peg T j)\<rparr>]"
    unfolding t candidate_ok(3)[OF c] by (simp_all add: config_def)
  ultimately show ?thesis using m by blast
qed

lemma steps_run_from:
  "steps od N k s = Some s' \<Longrightarrow>
     \<exists>es. log s' = log s @ es \<and> length es = k \<and> run_from od N (tower s) (previous s) es \<and>
       tower s' = (if es = [] then tower s else board (last es)) \<and>
       previous s' = (if es = [] then previous s else last_after (last es))"
proof (induction k arbitrary: s)
  case 0
  then show ?case by simp
next
  case (Suc k)
  from Suc.prems obtain s1 where ne: "length (peg (tower s) 2) \<noteq> N"
    and nx: "next_move od s = Some s1" and st: "steps od N k s1 = Some s'"
    by (auto split: if_splits option.splits)
  from nx obtain t where t: "next_move od (config (tower s) (previous s)) = Some t"
    and ts: "tower s1 = tower t" "previous s1 = previous t" "log s1 = log s @ log t"
    unfolding next_move_def by (blast dest: first_taken_config)
  from event_of_move[OF t] obtain e where e: "log t = [e]" "board e = tower t"
    "last_after e = previous t"
    by force
  from Suc.IH[OF st] obtain es where es: "log s' = log s1 @ es" "length es = k"
    "run_from od N (tower s1) (previous s1) es"
    "tower s' = (if es = [] then tower s1 else board (last es))"
    "previous s' = (if es = [] then previous s1 else last_after (last es))"
    by blast
  have "log s' = log s @ (e # es)" using es(1) ts(3) e(1) by simp
  moreover have "length (e # es) = Suc k" using es(2) by simp
  moreover have "run_from od N (tower s) (previous s) (e # es)"
    using ne t e es(3) ts by simp
  moreover have "tower s' = (if e # es = [] then tower s else board (last (e # es)))"
    using es(4) e ts by simp
  moreover have "previous s' = (if e # es = [] then previous s else last_after (last (e # es)))"
    using es(5) e ts by simp
  ultimately show ?case by blast
qed

lemma solve_log:
  assumes "0 < n"
  shows "\<exists>s out. solve (int n) = Some (s, out) \<and>
           run_from (odd n) n (stack n, [], []) 2 (log s) \<and> log s \<noteq> [] \<and>
           tower s = ([], [], stack n) \<and> previous s = 2 \<and>
           board (last (log s)) = tower s \<and> last_after (last (log s)) = previous s"
proof -
  from solve_run[OF assms] obtain s out where s: "solve (int n) = Some (s, out)"
    and r: "steps (odd n) n (2 ^ n - 1) (start n) = Some s"
    and f: "tower s = ([], [], stack n)" "previous s = 2"
    by blast
  from steps_run_from[OF r] obtain es where es: "log s = es" "length es = 2 ^ n - 1"
    "run_from (odd n) n (stack n, [], []) 2 es"
    "tower s = (if es = [] then tower (start n) else board (last es))"
    "previous s = (if es = [] then previous (start n) else last_after (last es))"
    by (auto simp: start_def)
  have "(2::nat) ^ n \<ge> 2 ^ 1" using assms by (intro power_increasing) simp_all
  with es(2) have "es \<noteq> []" by auto
  with s f es show ?thesis by auto
qed

lemma run_from_boards:
  assumes "run_from od N T L es" and "P T"
    and step: "\<And>T i j. P T \<Longrightarrow> (i, j) \<in> set (all_candidates od) \<Longrightarrow> peg T i \<noteq> [] \<Longrightarrow>
            peg T j = [] \<or> hd (peg T i) < hd (peg T j) \<Longrightarrow>
            P (set_peg (set_peg T i (tl (peg T i))) j (hd (peg T i) # peg T j))"
  shows "\<forall>e \<in> set es. P (board e)"
  using assms(1,2)
proof (induction es arbitrary: T L)
  case Nil
  then show ?case by simp
next
  case (Cons e es)
  from Cons.prems(1) obtain t where t: "next_move od (config T L) = Some t" and l: "log t = [e]"
    and r: "run_from od N (board e) (last_after e) es"
    by auto
  from event_of_move[OF t] l obtain i j where "(i, j) \<in> set (all_candidates od)"
    "peg T i \<noteq> []" "peg T j = [] \<or> hd (peg T i) < hd (peg T j)"
    "board e = set_peg (set_peg T i (tl (peg T i))) j (hd (peg T i) # peg T j)"
    by force
  with step[OF Cons.prems(2)] have "P (board e)" by simp
  with Cons.IH[OF r] show ?case by simp
qed

text \<open>Every peg of the board strictly increasing from front to back.\<close>

definition increasing :: "HanoiTower \<Rightarrow> bool" where
  "increasing T \<longleftrightarrow> (\<forall>p < 3. sorted_wrt (<) (peg T p))"

lemma sorted_push:
  assumes "sorted_wrt (<) t" and "t = [] \<or> x < hd t"
  shows "sorted_wrt (<) ((x::int) # t)"
proof (cases t)
  case Nil
  then show ?thesis by simp
next
  case (Cons y ys)
  with assms have "x < y" and "\<forall>z \<in> set ys. y < z" and "sorted_wrt (<) ys" by auto
  then have "\<forall>z \<in> set (y # ys). x < z" by auto
  with assms(1) Cons show ?thesis by simp
qed

lemma sorted_pop: "sorted_wrt (<) f \<Longrightarrow> sorted_wrt (<) (tl (f::int list))"
  by (cases f) auto

lemma lt3_iff: "(\<forall>p<3. Q (p::nat)) \<longleftrightarrow> Q 0 \<and> Q 1 \<and> Q 2"
proof
  assume "\<forall>p<3. Q p"
  then show "Q 0 \<and> Q 1 \<and> Q 2" by simp
next
  assume a: "Q 0 \<and> Q 1 \<and> Q 2"
  show "\<forall>p<3. Q p"
  proof (intro allI impI)
    fix p :: nat assume "p < 3"
    from three_cases[OF this] a show "Q p" by auto
  qed
qed

lemma increasing_step:
  assumes "increasing T" and "(i, j) \<in> set (all_candidates od)" and "peg T i \<noteq> []"
    and "peg T j = [] \<or> hd (peg T i) < hd (peg T j)"
  shows "increasing (set_peg (set_peg T i (tl (peg T i))) j (hd (peg T i) # peg T j))"
proof -
  obtain p0 p1 p2 where T: "T = (p0, p1, p2)" by (cases T) auto
  from assms(2) have "(i, j) \<in> {(0, 2), (0, 1), (1, 2), (2, 0), (2, 1), (1, 0)}"
    by (cases od) (auto simp: all_candidates_simps)
  with assms(1,3,4) show ?thesis
    unfolding increasing_def lt3_iff T
    by (auto simp del: sorted_wrt.simps simp: sorted_push sorted_pop)
qed

text \<open>The disks on the board, as a multiset.\<close>

definition disks :: "HanoiTower \<Rightarrow> int multiset" where
  "disks T = mset (peg T 0) + mset (peg T 1) + mset (peg T 2)"

lemma disks_step:
  assumes "(i, j) \<in> set (all_candidates od)" and "peg T i \<noteq> []"
  shows "disks (set_peg (set_peg T i (tl (peg T i))) j (hd (peg T i) # peg T j)) = disks T"
proof -
  obtain p0 p1 p2 where T: "T = (p0, p1, p2)" by (cases T) auto
  have m: "add_mset (hd f) (mset (tl f)) = mset f" if "f \<noteq> []" for f :: "int list"
    using that by (cases f) auto
  from assms(1) have "(i, j) \<in> {(0, 2), (0, 1), (1, 2), (2, 0), (2, 1), (1, 0)}"
    by (cases od) (auto simp: all_candidates_simps)
  with assms(2) show ?thesis
    unfolding disks_def T by (auto simp: m)
qed

lemma disks_stack: "disks (stack n, [], []) = mset_set {1..int n}"
proof -
  have "mset (stack n) = mset_set {1..int n}"
    unfolding upto_stack[symmetric] using mset_set_set[OF distinct_upto, of 1 "int n"] by simp
  then show ?thesis by (simp add: disks_def)
qed

lemma run_from_last:
  assumes "run_from od N T L es"
  shows "(\<forall>e \<in> set es. last_after e = int (dst e) \<and> last_before e \<noteq> int (src e)) \<and>
         (es \<noteq> [] \<longrightarrow> last_before (hd es) = L) \<and>
         (\<forall>k. Suc k < length es \<longrightarrow> last_before (es ! Suc k) = last_after (es ! k))"
  using assms
proof (induction es arbitrary: T L)
  case Nil
  then show ?case by simp
next
  case (Cons e es)
  from Cons.prems obtain t where t: "next_move od (config T L) = Some t" and l: "log t = [e]"
    and r: "run_from od N (board e) (last_after e) es"
    by auto
  from event_of_move[OF t] l have e: "last_after e = int (dst e)" "last_before e \<noteq> int (src e)"
    "last_before e = L"
    by force+
  note ih = Cons.IH[OF r]
  have "last_before ((e # es) ! Suc k) = last_after ((e # es) ! k)" if "Suc k < length (e # es)" for k
  proof (cases k)
    case 0
    with that ih show ?thesis by (cases es) auto
  next
    case (Suc k')
    with that ih show ?thesis by simp
  qed
  with e ih show ?case by simp
qed

lemma run_from_progress:
  assumes "run_from od N T L es" and "es \<noteq> [] \<Longrightarrow> length (peg (board (last es)) 2) = N"
  shows "\<forall>e \<in> set es. length (peg (board e) 2) \<noteq> N \<longrightarrow>
           (\<exists>i j. (i, j) \<in> set (forward_candidates od @ backward_candidates) \<and>
                  fst (candidate i j (config (board e) (last_after e))))"
  using assms
proof (induction es arbitrary: T L)
  case Nil
  then show ?case by simp
next
  case (Cons e es)
  from Cons.prems(1) have r: "run_from od N (board e) (last_after e) es" by simp
  show ?case
  proof (cases es)
    case Nil
    with Cons.prems(2) show ?thesis by simp
  next
    case (Cons e' es')
    with r obtain t where "next_move od (config (board e) (last_after e)) = Some t" by auto
    from next_move_SomeD[OF this]
    have "\<exists>i j. (i, j) \<in> set (forward_candidates od @ backward_candidates) \<and>
                  fst (candidate i j (config (board e) (last_after e)))"
      unfolding all_candidates_def by blast
    moreover from Cons.prems(2) Cons have "length (peg (board (last es)) 2) = N" by simp
    ultimately show ?thesis using Cons.IH[OF r] by simp
  qed
qed

lemma run_from_first:
  assumes "run_from od N T L es" and "es \<noteq> []"
  shows "\<exists>i j. (i, j) \<in> set (forward_candidates od @ backward_candidates) \<and>
                  fst (candidate i j (config T L))"
proof -
  from assms obtain t where "next_move od (config T L) = Some t" by (cases es) auto
  from next_move_SomeD[OF this] show ?thesis unfolding all_candidates_def by blast
qed

lemma odd_nat: "0 \<le> n \<Longrightarrow> odd (nat n) = odd n"
  by (simp add: even_nat_iff)

lemma start_config: "start n = config (stack n, [], []) 2"
  by (simp add: start_def config_def)

section \<open>Facts about the command line\<close>

lemma std_abs_eq: "v \<noteq> - (2 ^ 31) \<Longrightarrow> std_abs v = Some \<bar>v\<bar>"
  by (simp add: std_abs_def)

lemma DisksCount_parsed:
  assumes "2 \<le> length argv" and "stoi (argv ! 1) = Inr v" and "v \<noteq> - (2 ^ 31)"
  shows "DisksCount argv =
           Inr (if \<bar>v\<bar> < 1 then 3 else \<bar>v\<bar>,
                (if \<bar>v\<bar> < 1 then notice_incorrect \<bar>v\<bar> else []) @
                (if 25 < \<bar>v\<bar> then notice_large else []))"
  using assms by (simp add: DisksCount_def Let_def std_abs_eq)

lemma DisksCount_at_least_1:
  assumes "DisksCount argv = Inr (d, out)"
  shows "1 \<le> d"
proof (cases "length argv < 2")
  case True
  with assms show ?thesis by (simp add: DisksCount_def)
next
  case False
  with assms obtain v where v: "stoi (argv ! 1) = Inr v"
    by (cases "stoi (argv ! 1)") (auto simp: DisksCount_def)
  with False assms have "v \<noteq> - (2 ^ 31)"
    by (auto simp: DisksCount_def std_abs_def)
  with False v assms DisksCount_parsed[of argv v] show ?thesis
    by (auto split: if_splits)
qed

lemma solve_5: "map_option snd (solve 5) = Some ''5 disks done in 31 moves''"
  by code_simp

section \<open>The move primitive: when it succeeds, what it changes\<close>

text \<open>
  C2. \<open>Move frm to\<close> succeeds exactly when \<open>frm\<close> is non-empty and, if \<open>to\<close> is
  non-empty, the top of \<open>frm\<close> is strictly smaller than the top of \<open>to\<close> and of the other
  parity. On success the top disk of \<open>frm\<close> becomes the new top of \<open>to\<close> and \<open>True\<close> is
  returned. Two non-empty pegs whose tops share parity never exchange a disk, whatever the
  sizes.
\<close>

theorem Move_succeeds_iff:
  "(fst (Move frm to) \<longleftrightarrow>
      frm \<noteq> [] \<and> (to \<noteq> [] \<longrightarrow> hd frm < hd to) \<and> (to \<noteq> [] \<longrightarrow> odd (hd frm) \<noteq> odd (hd to)))
   \<and> (fst (Move frm to) \<longrightarrow> Move frm to = (True, tl frm, hd frm # to))
   \<and> (frm \<noteq> [] \<and> to \<noteq> [] \<and> odd (hd frm) = odd (hd to) \<longrightarrow> \<not> fst (Move frm to))"
  by (auto simp: Move_eq)

theorem Move_succeeds_iff_witness:
  "([1, 4] \<noteq> [] \<and> [2, 3] \<noteq> [] \<and> hd [1, 4] < hd [2, 3 :: int] \<and> odd (hd [1, 4 :: int])
    \<and> \<not> odd (hd [2, 3 :: int]) \<and> Move [1, 4] [2, 3] = (True, [4], [1, 2, 3]))
   \<and> ([1, 4] \<noteq> [] \<and> [3] \<noteq> [] \<and> odd (hd [1, 4 :: int]) = odd (hd [3 :: int])
    \<and> \<not> fst (Move [1, 4] [3]))"
proof -
  have ok: "fst (Move [1, 4] [2, 3])"
    using Move_succeeds_iff [of "[1, 4]" "[2, 3]"] by simp
  then have "Move [1, 4] [2, 3] = (True, tl [1, 4], hd [1, 4] # [2, 3])"
    using Move_succeeds_iff [of "[1, 4]" "[2, 3]"] by blast
  moreover have "\<not> fst (Move [1, 4] [3])"
    using Move_succeeds_iff [of "[1, 4]" "[3]"] by simp
  ultimately show ?thesis by simp
qed

text \<open>
  C3. When \<open>Move frm to\<close> returns \<open>False\<close>, both pegs are exactly as they were, for every
  pair of pegs.
\<close>

theorem Move_fail_unchanged:
  "\<not> fst (Move frm to) \<Longrightarrow> snd (Move frm to) = (frm, to)"
  by (rule Move_fail_same)

theorem Move_fail_unchanged_witness:
  "\<not> fst (Move [3] [1, 2]) \<and> snd (Move [3] [1, 2]) = ([3], [1, 2])"
proof -
  have h: "\<not> fst (Move [3] [1, 2])" by (simp add: Move_eq)
  show ?thesis by (rule conjI [OF h Move_fail_unchanged [OF h]])
qed

section \<open>The solver: termination, move count, final board\<close>

text \<open>
  Up to 31 disks the count fits the counter: the solver returns and the count it reports
  is exactly \<open>2 ^ N - 1\<close>.
\<close>

lemma solver_move_count_upto_31:
  "1 \<le> n \<Longrightarrow> n \<le> 31 \<Longrightarrow>
     \<exists>s. solve n = Some (s, show_nat (nat n) @ '' disks done in '' @ show_int (2 ^ nat n - 1)
                               @ '' moves'') \<and>
         sint (moves s) = 2 ^ nat n - 1"
proof -
  assume n: "1 \<le> n" and b: "n \<le> 31"
  then have k: "0 < nat n" and e: "int (nat n) = n" by simp_all
  from solve_moves[OF k] obtain s where
    s: "solve n = Some (s, show_nat (nat n) @ '' disks done in '' @ show_int (sint (moves s))
                             @ '' moves'')"
    and m: "moves s = of_nat (2 ^ nat n - 1)"
    unfolding e by blast
  have "sint (moves s) = 2 ^ nat n - 1"
    unfolding m using b by (intro sint_count) simp
  with s show ?thesis by auto
qed

text \<open>
  C1. For every \<open>N \<ge> 1\<close> the solver is to terminate and to report \<open>2 ^ N - 1\<close> moves. On 32
  disks the code does not: the run returns after \<open>2 ^ 32 - 1\<close> moves, but the counter, a
  32-bit \<^verbatim>\<open>int\<close> incremented once per move, has overflowed, and the line printed is
  \<^verbatim>\<open>32 disks done in -1 moves\<close>.
\<close>

theorem solver_move_count_at_32:
  "map_option snd (solve 32) = Some ''32 disks done in -1 moves'' \<and>
   map_option (sint \<circ> moves \<circ> fst) (solve 32) = Some (- 1) \<and>
   (- 1 :: int) \<noteq> 2 ^ 32 - 1"
proof -
  from solve_moves [of 32] obtain s where
    s: "solve 32 = Some (s, show_nat 32 @ '' disks done in '' @ show_int (sint (moves s))
                             @ '' moves'')"
    and m: "moves s = of_nat (2 ^ 32 - 1)"
    by auto
  have "sint (moves s) = - 1" unfolding m by (rule sint_count_32)
  with s show ?thesis by (simp add: show_32)
qed

text \<open>
  C4. For every \<open>N \<ge> 1\<close>, when the loop of the driver exits, pegs 0 and 1 are empty and
  peg 2 holds \<open>1, 2, \<dots>, N\<close> from front to back. (The loop only tests the length of peg 2.)
\<close>

theorem solver_final_board:
  "1 \<le> n \<Longrightarrow> \<exists>s out. solve n = Some (s, out) \<and> tower s = ([], [], [1..n])"
proof -
  assume n: "1 \<le> n"
  then have k: "0 < nat n" and e: "int (nat n) = n" by simp_all
  from solve_run[OF k] upto_stack[of "nat n"] show ?thesis unfolding e by auto
qed

theorem solver_final_board_witness:
  "(1::int) \<le> 3 \<and> (\<exists>s out. solve 3 = Some (s, out) \<and> tower s = ([], [], [1, 2, 3]))"
proof -
  have "[1..3::int] = [1, 2, 3]" by (simp add: upto_rec1)
  with solver_final_board [of 3] show ?thesis by auto
qed

section \<open>Every move of a run\<close>

text \<open>
  C5. For every \<open>N \<ge> 1\<close> the run returns, and the driver is never stuck before the end:
  in the initial configuration, and in the configuration after any move that leaves fewer
  than \<open>N\<close> disks on peg 2, some guarded candidate of the forward or backward sweep is
  taken.
\<close>

theorem driver_progress:
  "1 \<le> n \<Longrightarrow>
     \<exists>s out. solve n = Some (s, out) \<and>
       (\<exists>i j. (i, j) \<in> set (forward_candidates (odd n) @ backward_candidates) \<and>
              fst (candidate i j \<lparr>tower = ([1..n], [], []), previous = 2, moves = 0, log = []\<rparr>)) \<and>
       (\<forall>e \<in> set (log s). length (peg (board e) 2) \<noteq> nat n \<longrightarrow>
          (\<exists>i j. (i, j) \<in> set (forward_candidates (odd n) @ backward_candidates) \<and>
                 fst (candidate i j
                        \<lparr>tower = board e, previous = last_after e, moves = 0, log = []\<rparr>)))"
proof -
  assume n: "1 \<le> n"
  then have k: "0 < nat n" and e: "int (nat n) = n" and o: "odd (nat n) = odd n"
    by (simp_all add: odd_nat)
  from solve_log[OF k] obtain s out where s: "solve n = Some (s, out)"
    and r: "run_from (odd n) (nat n) (stack (nat n), [], []) 2 (log s)" and ne: "log s \<noteq> []"
    and f: "tower s = ([], [], stack (nat n))" "board (last (log s)) = tower s"
    unfolding e o by blast
  have l: "length (peg (board (last (log s))) 2) = nat n" using f by (simp add: length_stack)
  from run_from_first[OF r ne] run_from_progress[OF r l] s upto_stack[of "nat n"]
  show ?thesis unfolding config_def e by auto
qed

theorem driver_progress_witness:
  "(1::int) \<le> 3 \<and>
     (\<exists>s out. solve 3 = Some (s, out) \<and> log s \<noteq> [] \<and>
       (\<forall>e \<in> set (log s). length (peg (board e) 2) \<noteq> 3 \<longrightarrow>
          (\<exists>i j. (i, j) \<in> set (forward_candidates True @ backward_candidates) \<and>
                 fst (candidate i j
                        \<lparr>tower = board e, previous = last_after e, moves = 0, log = []\<rparr>))))"
proof -
  have "case solve 3 of None \<Rightarrow> False | Some (s, out) \<Rightarrow> log s \<noteq> []" by code_simp
  with driver_progress [of 3] show ?thesis by auto
qed

text \<open>
  C6. For every \<open>N \<ge> 1\<close>, after every move of the run each of the three pegs, read from
  front to back, is strictly increasing.
\<close>

theorem pegs_increasing:
  "1 \<le> n \<Longrightarrow>
     \<exists>s out. solve n = Some (s, out) \<and> log s \<noteq> [] \<and>
       (\<forall>e \<in> set (log s).
          sorted_wrt (<) (peg (board e) 0) \<and> sorted_wrt (<) (peg (board e) 1) \<and>
          sorted_wrt (<) (peg (board e) 2))"
proof -
  assume n: "1 \<le> n"
  then have k: "0 < nat n" and e: "int (nat n) = n" by simp_all
  from solve_log[OF k] obtain s out where s: "solve n = Some (s, out)"
    and r: "run_from (odd (nat n)) (nat n) (stack (nat n), [], []) 2 (log s)"
    and ne: "log s \<noteq> []"
    unfolding e by blast
  have "sorted_wrt (<) [1..n]" by (simp add: sorted_wrt_upto)
  then have "increasing (stack (nat n), [], [])"
    unfolding upto_stack[of "nat n", symmetric] e by (simp add: increasing_def lt3_iff)
  with r have "\<forall>e \<in> set (log s). increasing (board e)"
    by (rule run_from_boards) (rule increasing_step)
  with s ne show ?thesis by (auto simp: increasing_def lt3_iff)
qed

theorem pegs_increasing_witness:
  "(1::int) \<le> 3 \<and>
     (\<exists>s out. solve 3 = Some (s, out) \<and> log s \<noteq> [] \<and>
       (\<forall>e \<in> set (log s).
          sorted_wrt (<) (peg (board e) 0) \<and> sorted_wrt (<) (peg (board e) 1) \<and>
          sorted_wrt (<) (peg (board e) 2)))"
  using pegs_increasing [of 3] by simp

text \<open>
  C7. For every \<open>N \<ge> 1\<close>, after every move of the run the three pegs together hold
  exactly the disks \<open>1, \<dots>, N\<close>, each once.
\<close>

theorem disks_conserved:
  "1 \<le> n \<Longrightarrow>
     \<exists>s out. solve n = Some (s, out) \<and> log s \<noteq> [] \<and>
       (\<forall>e \<in> set (log s).
          mset (peg (board e) 0) + mset (peg (board e) 1) + mset (peg (board e) 2) =
            mset_set {1..n})"
proof -
  assume n: "1 \<le> n"
  then have k: "0 < nat n" and e: "int (nat n) = n" by simp_all
  from solve_log[OF k] obtain s out where s: "solve n = Some (s, out)"
    and r: "run_from (odd (nat n)) (nat n) (stack (nat n), [], []) 2 (log s)"
    and ne: "log s \<noteq> []"
    unfolding e by blast
  have "disks (stack (nat n), [], []) = mset_set {1..n}" using disks_stack[of "nat n"] e by simp
  with r have "\<forall>e \<in> set (log s). disks (board e) = mset_set {1..n}"
    by (rule run_from_boards) (simp add: disks_step)
  with s ne show ?thesis by (auto simp: disks_def)
qed

theorem disks_conserved_witness:
  "(1::int) \<le> 3 \<and>
     (\<exists>s out. solve 3 = Some (s, out) \<and> log s \<noteq> [] \<and>
       (\<forall>e \<in> set (log s).
          mset (peg (board e) 0) + mset (peg (board e) 1) + mset (peg (board e) 2) =
            mset_set {1..3}))"
  using disks_conserved [of 3] by simp

text \<open>
  C8. For every \<open>N \<ge> 1\<close>: \<open>previous\<close> is 2 before the first move; after every move it is
  the index of the peg the disk went to, and stays so until the next move; no move takes
  a disk from the peg \<open>previous\<close> points at, and a candidate whose source is that peg
  changes nothing.
\<close>

theorem last_moved_index:
  "1 \<le> n \<Longrightarrow>
     \<exists>s out. solve n = Some (s, out) \<and> log s \<noteq> [] \<and>
       last_before (hd (log s)) = 2 \<and>
       (\<forall>e \<in> set (log s). last_after e = int (dst e) \<and> last_before e \<noteq> int (src e)) \<and>
       (\<forall>k. Suc k < length (log s) \<longrightarrow> last_before (log s ! Suc k) = last_after (log s ! k)) \<and>
       previous s = last_after (last (log s)) \<and>
       (\<forall>i j st. previous st = int i \<longrightarrow> candidate i j st = (False, st))"
proof -
  assume n: "1 \<le> n"
  then have k: "0 < nat n" and e: "int (nat n) = n" by simp_all
  from solve_log[OF k] obtain s out where s: "solve n = Some (s, out)"
    and r: "run_from (odd (nat n)) (nat n) (stack (nat n), [], []) 2 (log s)"
    and ne: "log s \<noteq> []" and l: "last_after (last (log s)) = previous s"
    unfolding e by blast
  have "candidate i j st = (False, st)" if "previous st = int i" for i j st
    using that by (simp add: candidate_def)
  with run_from_last[OF r] s ne l show ?thesis by auto
qed

theorem last_moved_index_witness:
  "(1::int) \<le> 3 \<and>
     (\<exists>s out. solve 3 = Some (s, out) \<and> log s \<noteq> [] \<and>
       last_before (hd (log s)) = 2 \<and>
       (\<forall>e \<in> set (log s). last_after e = int (dst e) \<and> last_before e \<noteq> int (src e)))"
  using last_moved_index [of 3] by auto

text \<open>
  C9. On three disks the solver makes the moves \<open>0\<rightarrow>2, 0\<rightarrow>1, 2\<rightarrow>1, 0\<rightarrow>2, 1\<rightarrow>0, 1\<rightarrow>2, 0\<rightarrow>2\<close>, in
  this order, and prints \<^verbatim>\<open>3 disks done in 7 moves\<close>.
\<close>

theorem three_disks:
  "map_option (\<lambda>(s, out). (map (\<lambda>e. (src e, dst e)) (log s), out)) (solve 3) =
     Some ([(0, 2), (0, 1), (2, 1), (0, 2), (1, 0), (1, 2), (0, 2)], ''3 disks done in 7 moves'')"
  by code_simp


section \<open>The disk count from the command line\<close>

text \<open>
  Where the behaviour of \<^verbatim>\<open>DisksCount\<close> is defined: without an argument it prints a notice
  and returns 3; an argument that \<^verbatim>\<open>std::stoi\<close> reads as \<open>v \<noteq> - 2 ^ 31\<close> gives the count \<open>\<bar>v\<bar>\<close>,
  or the notice and the count 3 when \<open>\<bar>v\<bar> < 1\<close>; a count that is returned is at least 1;
  the argument \<^verbatim>\<open>-5\<close> gives the count 5, and the solver on 5 disks prints 31 moves.
\<close>

lemma DisksCount_defined:
  "(length argv < 2 \<longrightarrow> DisksCount argv = Inr (3, notice_default 3)) \<and>
   (2 \<le> length argv \<and> stoi (argv ! 1) = Inr v \<and> v \<noteq> - (2 ^ 31) \<longrightarrow>
      (\<exists>out. DisksCount argv = Inr (if \<bar>v\<bar> < 1 then 3 else \<bar>v\<bar>, out) \<and>
             (\<bar>v\<bar> < 1 \<longrightarrow> out = notice_incorrect \<bar>v\<bar>))) \<and>
   (DisksCount argv = Inr (d, out') \<longrightarrow> 1 \<le> d) \<and>
   DisksCount [prog, ''-5''] = Inr (5, []) \<and>
   (\<exists>s. solve 5 = Some (s, ''5 disks done in 31 moves''))"
proof (intro conjI impI)
  show "DisksCount argv = Inr (3, notice_default 3)" if "length argv < 2"
    using that by (simp add: DisksCount_def)
  show "\<exists>out. DisksCount argv = Inr (if \<bar>v\<bar> < 1 then 3 else \<bar>v\<bar>, out) \<and>
             (\<bar>v\<bar> < 1 \<longrightarrow> out = notice_incorrect \<bar>v\<bar>)"
    if "2 \<le> length argv \<and> stoi (argv ! 1) = Inr v \<and> v \<noteq> - (2 ^ 31)"
    using that DisksCount_parsed[of argv v] by auto
  show "1 \<le> d" if "DisksCount argv = Inr (d, out')"
    using that by (rule DisksCount_at_least_1)
  have "stoi ''-5'' = Inr (- 5)" by code_simp
  then show "DisksCount [prog, ''-5''] = Inr (5, [])"
    by (simp add: DisksCount_def std_abs_def)
  from solve_5 show "\<exists>s. solve 5 = Some (s, ''5 disks done in 31 moves'')" by auto
qed

text \<open>
  C10. The count is to be the absolute value of the argument, reset to 3 with a notice
  when that is less than 1, and at least 1 whenever it is returned. For the argument
  \<^verbatim>\<open>-2147483648\<close> the code does not ensure this: \<^verbatim>\<open>std::stoi\<close> reads it as \<open>- 2 ^ 31\<close>, an
  \<^verbatim>\<open>int\<close>, and \<^verbatim>\<open>std::abs\<close> is called on it before the test \<^verbatim>\<open>disks_count < 1\<close>; the
  absolute value is not an \<^verbatim>\<open>int\<close> and the behaviour of the call is undefined.
\<close>

theorem DisksCount_at_int_min:
  "stoi ''-2147483648'' = Inr (- 2147483648) \<and>
   std_abs (- 2147483648) = None \<and>
   DisksCount [''hanoi'', ''-2147483648''] = Inl Undefined"
proof -
  have p: "stoi ''-2147483648'' = Inr (- 2147483648)" by code_simp
  have a: "std_abs (- 2147483648) = None" by (simp add: std_abs_def)
  from p a have "DisksCount [''hanoi'', ''-2147483648''] = Inl Undefined"
    by (simp add: DisksCount_def)
  with p a show ?thesis by simp
qed

end
